theory Spec2Isabelle
  imports Main "HOL-Library.Word"
begin

unbundle bit_operations_syntax

section \<open>Common types\<close>

text \<open>
  Go's \<open>byte\<close> is an 8-bit word; \<open>int\<close>, \<open>int64\<close> and \<open>uint64\<close> are 64-bit words
  (a 64-bit platform), read signed with \<open>sint\<close> where the source compares signed values.
  Positions inside the 1024-byte read buffer never leave \<open>0..1024\<close> and are natural numbers.
\<close>

type_synonym byte = "8 word"
type_synonym int64 = "64 word"
type_synonym uint64 = "64 word"
type_synonym uint32 = "32 word"

text \<open>The object id \<open>sha1\<close> is a \<open>[20]byte\<close> array in the source.\<close>

type_synonym sha1 = "byte list"

text \<open>
  Ways in which a Go function ends without returning to its caller: a run-time panic
  (index or slice out of range, nil dereference), \<open>log.Fatal\<close> (which exits the process),
  and, for the loops that are bounded by fuel here, running out of fuel.
\<close>

datatype abort = Panic | ProcessExit | OutOfFuel

text \<open>Go \<open>error\<close> values that the modelled functions return or compare.\<close>

datatype error =
    EOF
  | ErrUnexpectedEOF
  | ErrNotExist
  | ErrOpen
  | ErrSeek
  | ErrOther string

section \<open>Pack files: the size header (repo\_utils.go)\<close>

definition shift :: "byte list" where
  "shift = [0, 4, 11, 18, 25, 32, 39, 46, 53, 60]"

text \<open>
  The \<open>for buf[advance]&0x80 > 0\<close> loop of \<open>readLenInPackFile\<close>. Every index expression of
  the source is a branch: \<open>buf[advance]\<close> in the loop condition, then \<open>buf[advance]\<close> and
  \<open>shift[advance]\<close> (in this order) in the body after the increment.
\<close>

function readLenInPackFile_loop :: "byte list \<Rightarrow> int64 \<Rightarrow> nat \<Rightarrow> abort + (int64 \<times> nat)" where
  "readLenInPackFile_loop buf len advance =
     (if length buf \<le> advance then Inl Panic
      else if 0 < (buf ! advance AND 0x80) then
        (if length buf \<le> advance + 1 then Inl Panic
         else if length shift \<le> advance + 1 then Inl Panic
         else readLenInPackFile_loop buf
                (len + push_bit (unat (shift ! (advance + 1)))
                         (ucast (buf ! (advance + 1) AND 0x7F)))
                (advance + 1))
      else Inr (len, advance + 1))"
  by pat_completeness auto
termination
  by (relation "measure (\<lambda>(buf, len, advance). length shift - advance)") auto

declare readLenInPackFile_loop.simps [simp del]

definition readLenInPackFile :: "byte list \<Rightarrow> abort + (int64 \<times> nat)" where
  "readLenInPackFile buf =
     (if length buf \<le> 0 then Inl Panic
      else readLenInPackFile_loop buf (ucast (buf ! 0 AND 0x0F)) 0)"

section \<open>Pack files: reading an object (repo\_utils.go)\<close>

text \<open>
  Modelled from the spec: the declaration of \<open>ObjectType\<close> and of its constants is not
  part of the source files at hand. The spec gives the on-disk pattern \<open>type << 4\<close> with
  1 = Commit, 2 = Tree, 3 = Blob, 4 = Tag; the two delta kinds appear in the source as the
  literals \<open>0x60\<close> and \<open>0x70\<close>.
\<close>

type_synonym ObjectType = int64

definition ObjectCommit :: ObjectType where "ObjectCommit = 0x10"
definition ObjectTree :: ObjectType where "ObjectTree = 0x20"
definition ObjectBlob :: ObjectType where "ObjectBlob = 0x30"
definition ObjectTag :: ObjectType where "ObjectTag = 0x40"

text \<open>
  The fields of \<open>idxFile\<close> that the source reads and writes. A Go map is a partial function.
\<close>

record idxFile =
  indexpath :: string
  packpath :: string
  packversion :: uint32
  offsetValues :: "sha1 \<rightharpoonup> uint64"

text \<open>
  Functions of the repository that \<open>readObjectBytes\<close> calls and that are defined outside
  the source files at hand; they are parameters of the model. A stream is the list of the
  bytes it still yields: \<open>readerDecompressed\<close> maps the bytes of the file from its current
  position to the inflated bytes, \<open>readerLittleEndianBase128Number\<close> returns the number, the
  count of bytes it read and the stream behind them.
\<close>

record collab =
  NewId :: "byte list \<Rightarrow> error + sha1"
  readerDecompressed :: "byte list \<Rightarrow> error + byte list"
  readerLittleEndianBase128Number :: "byte list \<Rightarrow> int64 \<times> nat \<times> byte list"
  readerApplyDelta :: "byte list \<Rightarrow> byte list \<Rightarrow> int64 \<Rightarrow> byte list \<times> error option"

text \<open>
  The read-only file system: a path names the bytes of a file, or nothing.
  \<open>file_Read\<close> is one \<open>Read\<close> into a zeroed buffer of \<open>sz\<close> bytes at file position \<open>pos\<close>:
  the buffer afterwards, the count of bytes read, and \<open>io.EOF\<close> when none is left.
\<close>

type_synonym filesystem = "string \<Rightarrow> byte list option"

definition file_Read :: "byte list \<Rightarrow> nat \<Rightarrow> nat \<Rightarrow> byte list \<times> nat \<times> error option" where
  "file_Read content pos sz =
     (let chunk = take sz (drop pos content) in
      if chunk = [] then (replicate sz 0, 0, Some EOF)
      else (chunk @ replicate (sz - length chunk) 0, length chunk, None))"

text \<open>
  What \<open>readObjectBytes\<close> returns: its four named results \<open>(ot, length, dataRc, err)\<close>.
\<close>

type_synonym objectBytes = "ObjectType \<times> int64 \<times> byte list option \<times> error option"

text \<open>
  \<open>case 0x60\<close>: the loop \<open>for buf[pos]&0x80 > 0\<close> that decodes the distance to the base
  object; it returns \<open>num\<close> and the position of the last byte it read.
\<close>

function offsetDelta_loop :: "byte list \<Rightarrow> nat \<Rightarrow> int64 \<Rightarrow> abort + (int64 \<times> nat)" where
  "offsetDelta_loop buf pos num =
     (if length buf \<le> pos then Inl Panic
      else if 0 < (buf ! pos AND 0x80) then
        (if length buf \<le> pos + 1 then Inl Panic
         else offsetDelta_loop buf (pos + 1)
                (push_bit 7 (num + 1) OR ucast (buf ! (pos + 1) AND 0x7f)))
      else Inr (num, pos))"
  by pat_completeness auto
termination
  by (relation "measure (\<lambda>(buf, pos, num). length buf - pos)") auto

declare offsetDelta_loop.simps [simp del]

text \<open>
  \<open>case 0x60\<close> as a whole: \<open>baseObjectOffset\<close> and the new \<open>pos\<close>.
\<close>

definition offsetDeltaBase :: "byte list \<Rightarrow> int64 \<Rightarrow> nat \<Rightarrow> abort + (uint64 \<times> nat)" where
  "offsetDeltaBase buf offsetInt pos =
     (if length buf \<le> pos then Inl Panic
      else case offsetDelta_loop buf pos (ucast (buf ! pos) AND 0x7f) of
             Inl a \<Rightarrow> Inl a
           | Inr (num, pos') \<Rightarrow> Inr (offsetInt - num, pos' + 1))"

text \<open>
  \<open>case 0x70\<close>: the base is named by its id. The result is an abort, an early return with
  the error of \<open>NewId\<close>, or \<open>baseObjectOffset\<close> and the new \<open>pos\<close>. When the id is not in the
  map the source calls \<open>log.Fatal\<close> first; the two statements after it are never reached.
\<close>

definition refDeltaBase ::
  "collab \<Rightarrow> byte list \<Rightarrow> string \<Rightarrow> (string \<Rightarrow> idxFile option) \<Rightarrow> nat
     \<Rightarrow> abort + (error + (uint64 \<times> nat))" where
  "refDeltaBase c buf path indexfiles pos =
     (if length buf < pos + 20 then Inl Panic
      else case NewId c (take 20 (drop pos buf)) of
             Inl e \<Rightarrow> Inr (Inl e)
           | Inr ident \<Rightarrow>
               if length path < 4 then Inl Panic
               else (case indexfiles (take (length path - 4) path @ ''idx'') of
                       None \<Rightarrow> Inl Panic
                     | Some f \<Rightarrow>
                         (case offsetValues f ident of
                            None \<Rightarrow> Inl ProcessExit
                          | Some b \<Rightarrow> Inr (Inr (b, pos + 20)))))"

text \<open>
  The part of \<open>readObjectBytes\<close> after the recursive call: \<open>base\<close> is what the call
  returned for the base object, \<open>len\<close> the length decoded from this object's header and
  \<open>pos\<close> the position behind the delta header.
\<close>

definition resolveDelta ::
  "collab \<Rightarrow> byte list \<Rightarrow> int64 \<Rightarrow> nat \<Rightarrow> int64 \<Rightarrow> bool \<Rightarrow> objectBytes \<Rightarrow> abort + objectBytes" where
  "resolveDelta c content offsetInt pos len sizeonly base =
     (case base of (ot, _, baseRc, err) \<Rightarrow>
        if err \<noteq> None then Inr (ot, len, None, err)
        else case baseRc of
               None \<Rightarrow> Inl Panic
             | Some baseBytes \<Rightarrow>
                 if offsetInt + of_nat pos <s 0 then Inr (ot, len, None, Some ErrSeek)
                 else (case readerDecompressed c (drop (unat (offsetInt + of_nat pos)) content) of
                         Inl e \<Rightarrow> Inr (ot, len, None, Some e)
                       | Inr rc \<Rightarrow>
                           (case readerLittleEndianBase128Number c rc of (_, _, rc1) \<Rightarrow>
                            case readerLittleEndianBase128Number c rc1 of
                              (resultObjectLength, _, rc2) \<Rightarrow>
                                if sizeonly then Inr (ot, resultObjectLength, None, None)
                                else (case readerApplyDelta c baseBytes rc2 resultObjectLength of
                                        (data, err') \<Rightarrow> Inr (ot, len, Some data, err')))))"

text \<open>
  \<open>readObjectBytes\<close>. The recursion on the base object need not end (a delta may name
  itself as its base), so the depth of the recursion is bounded by fuel.
\<close>

fun readObjectBytes ::
  "nat \<Rightarrow> collab \<Rightarrow> filesystem \<Rightarrow> string \<Rightarrow> (string \<Rightarrow> idxFile option) \<Rightarrow> uint64 \<Rightarrow> bool
     \<Rightarrow> abort + objectBytes" where
  "readObjectBytes 0 c fs path indexfiles offset sizeonly = Inl OutOfFuel"
| "readObjectBytes (Suc fuel) c fs path indexfiles offset sizeonly =
     (case fs path of
        None \<Rightarrow> Inr (0, 0, None, Some ErrOpen)
      | Some content \<Rightarrow>
          if offset <s 0 then Inr (0, 0, None, Some ErrSeek)
          else (case file_Read content (unat offset) 1024 of (buf, n, err) \<Rightarrow>
            if err \<noteq> None then Inr (0, 0, None, err)
            else if n = 0 then Inr (0, 0, None, Some (ErrOther ''Nothing read from pack file''))
            else (case readLenInPackFile buf of
                    Inl a \<Rightarrow> Inl a
                  | Inr (l, p) \<Rightarrow>
                      let ot = ucast (buf ! 0 AND 0x70) in
                      if ot = ObjectCommit \<or> ot = ObjectTree \<or> ot = ObjectBlob \<or> ot = ObjectTag
                      then (if sizeonly then Inr (ot, l, None, None)
                            else if offset + of_nat p <s 0 then Inr (ot, l, None, Some ErrSeek)
                            else (case readerDecompressed c
                                         (drop (unat (offset + of_nat p)) content) of
                                    Inl e \<Rightarrow> Inr (ot, l, None, Some e)
                                  | Inr rc \<Rightarrow> Inr (ot, l, Some (take (nat (sint l)) rc), None)))
                      else (case (if ot = 0x60
                                  then map_sum id Inr (offsetDeltaBase buf offset p)
                                  else if ot = 0x70
                                  then refDeltaBase c buf path indexfiles p
                                  else Inr (Inr (0, p))) of
                              Inl a \<Rightarrow> Inl a
                            | Inr (Inl e) \<Rightarrow> Inr (ot, l, None, Some e)
                            | Inr (Inr (baseObjectOffset, pos)) \<Rightarrow>
                                (case readObjectBytes fuel c fs path indexfiles
                                        baseObjectOffset False of
                                   Inl a \<Rightarrow> Inl a
                                 | Inr base \<Rightarrow>
                                     resolveDelta c content offset pos l sizeonly base)))))"

section \<open>Pack index files (repo\_utils.go)\<close>

text \<open>
  A reader is the list of the bytes it still yields. \<open>io_ReadFull r n\<close> is \<open>io.ReadFull\<close>
  into a buffer of \<open>n\<close> bytes: the bytes read, the error (\<open>io.EOF\<close> when nothing could be
  read, \<open>io.ErrUnexpectedEOF\<close> after a part) and the reader afterwards. \<open>binary.Read\<close> of a
  fixed-size value returns the error of \<open>io.ReadFull\<close> on its bytes. \<open>io_CopyN\<close> is
  \<open>io.CopyN(ioutil.Discard, r, n)\<close>, whose error is \<open>io.EOF\<close> when the reader ends early.
\<close>

definition io_ReadFull :: "byte list \<Rightarrow> nat \<Rightarrow> byte list \<times> error option \<times> byte list" where
  "io_ReadFull r n =
     (if n \<le> length r then (take n r, None, drop n r)
      else (r, Some (if r = [] then EOF else ErrUnexpectedEOF), []))"

definition io_CopyN :: "byte list \<Rightarrow> nat \<Rightarrow> error option \<times> byte list" where
  "io_CopyN r n = (if n \<le> length r then (None, drop n r) else (Some EOF, []))"

definition BigEndian_Uint32 :: "byte list \<Rightarrow> uint32" where
  "BigEndian_Uint32 b = foldl (\<lambda>acc x. push_bit 8 acc OR ucast x) 0 (take 4 b)"

definition BigEndian_Uint64 :: "byte list \<Rightarrow> uint64" where
  "BigEndian_Uint64 b = foldl (\<lambda>acc x. push_bit 8 acc OR ucast x) 0 (take 8 b)"

definition checkIdxVersion :: "byte list \<Rightarrow> byte list \<Rightarrow> uint32 \<Rightarrow> error option \<times> byte list" where
  "checkIdxVersion r magic version =
     (case io_ReadFull r 8 of (buf, err, rest) \<Rightarrow>
        if err \<noteq> None then (err, rest)
        else if length buf < 8 then (Some (ErrOther ''Unexpected EOF''), rest)
        else if magic \<noteq> take 4 buf then (Some (ErrOther ''Unknown magic byte''), rest)
        else if BigEndian_Uint32 (drop 4 buf) \<noteq> version
        then (Some (ErrOther ''Not a version idx file''), rest)
        else (None, rest))"

definition isIdxOffsetValue64 :: "uint32 \<Rightarrow> bool \<times> uint32" where
  "isIdxOffsetValue64 v = (0 < (v AND push_bit 31 1), v AND NOT (push_bit 31 1))"

text \<open>Level 2: the loop that reads \<open>numObjects\<close> ids of 20 bytes.\<close>

fun readIds :: "nat \<Rightarrow> byte list \<Rightarrow> sha1 list \<times> error option \<times> byte list" where
  "readIds 0 r = ([], None, r)"
| "readIds (Suc n) r =
     (case io_ReadFull r 20 of (b, err, rest) \<Rightarrow>
        let err' = (if length b < 20 then Some (ErrOther ''Too short for sha1'') else err) in
        if err' \<noteq> None then ([], err', rest)
        else (case readIds n rest of (ids, e, rest') \<Rightarrow> (b # ids, e, rest')))"

text \<open>
  Level 4: the loop over the 32-bit offsets, one per id. The source tests
  \<open>err != binary.Read(idx, binary.BigEndian, &ov)\<close> and then returns \<open>nil, err\<close>; the
  variable \<open>err\<close> of the function is \<open>nil\<close> at this point (every earlier assignment to it
  was followed by a return when it was not), so a failed read returns \<open>(nil, nil)\<close>. That
  return is the result \<open>None\<close> here; otherwise the map, the links into the 64-bit table
  and the reader afterwards.
\<close>

fun readOffsets32 ::
  "sha1 list \<Rightarrow> byte list \<Rightarrow> (sha1 \<rightharpoonup> uint64) \<Rightarrow> (sha1 \<times> uint32) list
     \<Rightarrow> ((sha1 \<rightharpoonup> uint64) \<times> (sha1 \<times> uint32) list \<times> byte list) option" where
  "readOffsets32 [] r m links = Some (m, links, r)"
| "readOffsets32 (ident # ids) r m links =
     (case io_ReadFull r 4 of (b, err, rest) \<Rightarrow>
        if None \<noteq> err then None
        else (case isIdxOffsetValue64 (BigEndian_Uint32 b) of (ok, ov) \<Rightarrow>
                if ok then readOffsets32 ids rest m (links @ [(ident, ov)])
                else readOffsets32 ids rest (m(ident \<mapsto> ucast ov)) links))"

text \<open>The 64-bit table, read by one \<open>binary.Read\<close>, as the list of its entries.\<close>

fun decodeUint64s :: "nat \<Rightarrow> byte list \<Rightarrow> uint64 list" where
  "decodeUint64s 0 b = []"
| "decodeUint64s (Suc n) b = BigEndian_Uint64 b # decodeUint64s n (drop 8 b)"

text \<open>The loop that looks the large offsets up; an index outside the table is an error.\<close>

fun lookupLargeOffsets ::
  "(sha1 \<times> uint32) list \<Rightarrow> uint64 list \<Rightarrow> (sha1 \<rightharpoonup> uint64) \<Rightarrow> error + (sha1 \<rightharpoonup> uint64)" where
  "lookupLargeOffsets [] offsetValues64 m = Inr m"
| "lookupLargeOffsets ((ident, off) # links) offsetValues64 m =
     (if length offsetValues64 \<le> unat off
      then Inl (ErrOther ''Unexpected large index to 64bit index table'')
      else lookupLargeOffsets links offsetValues64 (m(ident \<mapsto> offsetValues64 ! unat off)))"

text \<open>
  \<open>readIdxFile\<close>. The SHA-1 function of the standard library is the parameter \<open>sha1sum\<close>.
  The tee reader hashes every byte read through it, so the calculated hash is the hash of
  the bytes of the file before the current position. The result is the pair
  \<open>(*idxFile, error)\<close> the function returns; slicing a path shorter than three characters
  panics.
\<close>

definition readIdxFile ::
  "(byte list \<Rightarrow> byte list) \<Rightarrow> filesystem \<Rightarrow> string \<Rightarrow> abort + (idxFile option \<times> error option)" where
  "readIdxFile sha1sum fs path =
     (if length path < 3 then Inl Panic
      else
        let pack = take (length path - 3) path @ ''pack'' in
        Inr (case fs path of
           None \<Rightarrow> (None, Some ErrOpen)
         | Some content \<Rightarrow>
            (case checkIdxVersion content [255, 0x74, 0x4F, 0x63] 2 of (err, r1) \<Rightarrow>
             if err \<noteq> None then (None, err)
             else (case io_ReadFull r1 (4 * 256) of (fanout, err, r2) \<Rightarrow>
             if err \<noteq> None then (None, err)
             else
               let numObjects = unat (BigEndian_Uint32 (drop (4 * 255) fanout)) in
               (case readIds numObjects r2 of (ids, err, r3) \<Rightarrow>
               if err \<noteq> None then (None, err)
               else (case io_CopyN r3 (4 * numObjects) of (err, r4) \<Rightarrow>
               if err \<noteq> None then (None, err)
               else (case readOffsets32 ids r4 Map.empty [] of
                 None \<Rightarrow> (None, None)
               | Some (m, links, r5) \<Rightarrow>
                  (case io_ReadFull r5 (8 * length links) of (table, err, r6) \<Rightarrow>
                   if None \<noteq> err then (None, None)
                   else (case lookupLargeOffsets links (decodeUint64s (length links) table) m of
                     Inl e \<Rightarrow> (None, Some e)
                   | Inr m' \<Rightarrow>
                      (case io_CopyN r6 20 of (err, r7) \<Rightarrow>
                       if err \<noteq> None then (None, err)
                       else
                         let hashCalculated = sha1sum (take (length content - length r7) content) in
                         (case io_ReadFull r7 20 of (hashFile, err, r8) \<Rightarrow>
                          if err \<noteq> None then (None, err)
                          else if hashFile \<noteq> hashCalculated
                          then (None, Some (ErrOther ''Chacksum missmatch''))
                          else (case fs pack of
                             None \<Rightarrow> (None, Some ErrOpen)
                           | Some packContent \<Rightarrow>
                              (case checkIdxVersion packContent [0x50, 0x41, 0x43, 0x4B] 2 of
                                 (err, r9) \<Rightarrow>
                                   if err \<noteq> None then (None, err)
                                   else (Some \<lparr> indexpath = path, packpath = pack,
                                                 packversion = 2, offsetValues = m' \<rparr>,
                                         None))))))))))))))"

section \<open>The history walker\<close>

text \<open>
  Modelled from the spec: the types \<open>Commit\<close> and \<open>TreeEntry\<close> and the methods \<open>Parent\<close>,
  \<open>ParentCount\<close> and \<open>GetTreeEntryByPath\<close> are declared outside the source files at hand
  (the spec lists what a commit exposes: id, tree id, committer time, parent count,
  parent \<open>i\<close>, message). A commit holds the ids of its parents; \<open>Parent\<close> loads a parent
  through the repository, which may fail. \<open>Signature\<close> is the struct of the source; its
  field \<open>When\<close> is the instant of \<open>time.Time\<close> as an integer, so that \<open>a.After(b)\<close> is
  \<open>b < a\<close>.
\<close>

record Signature =
  Email :: string
  Name :: string
  When :: int

record Commit =
  Id_commit :: sha1
  TreeId :: sha1
  Committer :: Signature
  CommitMessage :: string
  parents :: "sha1 list"

record TreeEntry =
  Id_entry :: sha1

type_synonym repository = "sha1 \<Rightarrow> error + Commit"

definition ParentCount :: "Commit \<Rightarrow> nat" where
  "ParentCount commit = length (parents commit)"

definition Parent :: "repository \<Rightarrow> Commit \<Rightarrow> nat \<Rightarrow> error + Commit" where
  "Parent repo commit idx =
     (if idx < length (parents commit) then repo (parents commit ! idx)
      else Inl (ErrOther ''Parent number out of range''))"

text \<open>
  \<open>HistoryWalkerAction\<close> is an \<open>int\<close> of flags; \<open>iota\<close> is 1 on the line of \<open>HWTakeCommit\<close>.
  Only bitwise operations are applied to it, which agree on \<open>int\<close> and on 64-bit integers.
\<close>

type_synonym HistoryWalkerAction = int

definition HWDrop :: HistoryWalkerAction where "HWDrop = 0"
definition HWTakeCommit :: HistoryWalkerAction where "HWTakeCommit = push_bit 1 1"
definition HWFollowParents :: HistoryWalkerAction where "HWFollowParents = push_bit 2 1"
definition HWStop :: HistoryWalkerAction where "HWStop = push_bit 3 1"
definition HWTakeAndFollow :: HistoryWalkerAction where
  "HWTakeAndFollow = HWTakeCommit OR HWFollowParents"

text \<open>
  A callback is a Go closure and may own mutable variables (the pager's counters): it takes
  its state and returns the new one beside the pair \<open>(action, error)\<close>.
\<close>

type_synonym 's CommitWalkCallback =
  "'s \<Rightarrow> Commit \<Rightarrow> (HistoryWalkerAction \<times> error option) \<times> 's"

type_synonym CommitComparator = "Commit \<Rightarrow> Commit \<Rightarrow> bool"

text \<open>
  \<open>parents(commit)\<close>: all parents in order, or the first error. The recursion runs over the
  parent ids, in the order of the index loop of the source.
\<close>

fun parents_loop :: "repository \<Rightarrow> Commit \<Rightarrow> nat \<Rightarrow> nat \<Rightarrow> error + Commit list" where
  "parents_loop repo commit idx 0 = Inr []"
| "parents_loop repo commit idx (Suc n) =
     (case Parent repo commit idx of
        Inl err \<Rightarrow> Inl err
      | Inr p \<Rightarrow>
          (case parents_loop repo commit (idx + 1) n of
             Inl err \<Rightarrow> Inl err
           | Inr ps \<Rightarrow> Inr (p # ps)))"

definition parents_fn :: "repository \<Rightarrow> Commit \<Rightarrow> error + Commit list" where
  "parents_fn repo commit = parents_loop repo commit 0 (ParentCount commit)"

text \<open>
  \<open>mergeRoots\<close>: the result starts as a copy of \<open>base\<close>; a commit of \<open>merging\<close> that is equal
  to some commit of \<open>base\<close> is dropped and its id marked as seen, any other is appended.
  The function returns the new roots and the updated set \<open>seen\<close>.
\<close>

fun mergeRoots_loop ::
  "Commit list \<Rightarrow> Commit list \<Rightarrow> CommitComparator \<Rightarrow> sha1 set \<Rightarrow> Commit list
     \<Rightarrow> Commit list \<times> sha1 set" where
  "mergeRoots_loop base [] eq seen newRoots = (newRoots, seen)"
| "mergeRoots_loop base (needle # rest) eq seen newRoots =
     (if list_ex (\<lambda>item. eq needle item) base
      then mergeRoots_loop base rest eq (insert (Id_commit needle) seen) newRoots
      else mergeRoots_loop base rest eq seen (newRoots @ [needle]))"

definition mergeRoots ::
  "Commit list \<Rightarrow> Commit list \<Rightarrow> CommitComparator \<Rightarrow> sha1 set \<Rightarrow> Commit list \<times> sha1 set" where
  "mergeRoots base merging eq seen = mergeRoots_loop base merging eq seen base"

text \<open>
  The inner loop of \<open>skipEqualCommits\<close> over the parents of \<open>commit\<close>, from index \<open>idx\<close> for
  \<open>n\<close> more parents: the first parent equal to \<open>commit\<close>, none, or the error of loading one.
\<close>

fun equalParent ::
  "repository \<Rightarrow> CommitComparator \<Rightarrow> Commit \<Rightarrow> nat \<Rightarrow> nat \<Rightarrow> error + Commit option" where
  "equalParent repo eq commit idx 0 = Inr None"
| "equalParent repo eq commit idx (Suc n) =
     (case Parent repo commit idx of
        Inl err \<Rightarrow> Inl err
      | Inr parent \<Rightarrow>
          if eq commit parent then Inr (Some parent)
          else equalParent repo eq commit (idx + 1) n)"

text \<open>
  \<open>skipEqualCommits\<close>: the pair \<open>(*Commit, error)\<close> it returns and the updated \<open>seen\<close>. The
  outer loop follows equal parents for as long as there are any; it is bounded by fuel.
\<close>

fun skipEqualCommits ::
  "nat \<Rightarrow> repository \<Rightarrow> Commit \<Rightarrow> CommitComparator \<Rightarrow> sha1 set
     \<Rightarrow> abort + ((Commit option \<times> error option) \<times> sha1 set)" where
  "skipEqualCommits 0 repo commit eq seen = Inl OutOfFuel"
| "skipEqualCommits (Suc fuel) repo commit eq seen =
     (if Id_commit commit \<in> seen then Inr ((None, None), seen)
      else if length (parents commit) = 0 then Inr ((Some commit, None), seen)
      else (case equalParent repo eq commit 0 (ParentCount commit) of
              Inl err \<Rightarrow> Inr ((None, Some err), seen)
            | Inr (Some parent) \<Rightarrow>
                skipEqualCommits fuel repo parent eq (insert (Id_commit commit) seen)
            | Inr None \<Rightarrow> Inr ((Some commit, None), seen)))"

text \<open>
  \<open>simplifyRoots\<close>: the new roots or the first error, and the updated \<open>seen\<close>.
\<close>

fun simplifyRoots_loop ::
  "nat \<Rightarrow> repository \<Rightarrow> Commit list \<Rightarrow> CommitComparator \<Rightarrow> sha1 set \<Rightarrow> Commit list
     \<Rightarrow> abort + ((error + Commit list) \<times> sha1 set)" where
  "simplifyRoots_loop fuel repo [] eq seen newRoots = Inr (Inr newRoots, seen)"
| "simplifyRoots_loop fuel repo (commit # rest) eq seen newRoots =
     (case skipEqualCommits fuel repo commit eq seen of
        Inl a \<Rightarrow> Inl a
      | Inr ((c, Some err), seen') \<Rightarrow> Inr (Inl err, seen')
      | Inr ((None, None), seen') \<Rightarrow> simplifyRoots_loop fuel repo rest eq seen' newRoots
      | Inr ((Some c, None), seen') \<Rightarrow>
          simplifyRoots_loop fuel repo rest eq seen' (newRoots @ [c]))"

definition simplifyRoots ::
  "nat \<Rightarrow> repository \<Rightarrow> Commit list \<Rightarrow> CommitComparator \<Rightarrow> sha1 set
     \<Rightarrow> abort + ((error + Commit list) \<times> sha1 set)" where
  "simplifyRoots fuel repo roots eq seen = simplifyRoots_loop fuel repo roots eq seen []"

text \<open>
  \<open>extractNewestCommit\<close>. The loop ranges over \<open>roots[1:]\<close>, so its index \<open>idx\<close> counts from
  0 at the second root, and \<open>targetIdx = idx\<close> is stored as the source stores it. The final
  \<open>append(roots[:targetIdx], roots[targetIdx+1:]...)\<close> removes the element at \<open>targetIdx\<close>.
  \<open>roots[0]\<close> of an empty slice panics.
\<close>

fun extractNewestCommit_loop ::
  "Commit list \<Rightarrow> nat \<Rightarrow> Commit \<Rightarrow> nat \<Rightarrow> Commit \<times> nat" where
  "extractNewestCommit_loop [] idx target targetIdx = (target, targetIdx)"
| "extractNewestCommit_loop (current # rest) idx target targetIdx =
     (if When (Committer target) < When (Committer current)
      then extractNewestCommit_loop rest (idx + 1) current idx
      else extractNewestCommit_loop rest (idx + 1) target targetIdx)"

definition extractNewestCommit :: "Commit list \<Rightarrow> abort + (Commit \<times> Commit list)" where
  "extractNewestCommit roots =
     (if length roots = 1 then Inr (roots ! 0, [])
      else if length roots \<le> 0 then Inl Panic
      else (case extractNewestCommit_loop (drop 1 roots) 0 (roots ! 0) 0 of
              (target, targetIdx) \<Rightarrow>
                Inr (target, take targetIdx roots @ drop (targetIdx + 1) roots)))"

text \<open>
  One pass through the body of the loop of \<open>walkHistoryLoop\<close>. The state between two passes
  is the frontier \<open>roots\<close>, the state of the callback, the set \<open>seen\<close> and the \<open>results\<close>;
  a pass ends the walk with what the function returns, or gives the next state.

  \<open>walkHistoryLoop_pick\<close> is the first half of the body (simplify, then extract the newest
  commit), \<open>walkHistoryLoop_act\<close> the second half, which interprets the action that the
  callback returned for the picked commit.
\<close>

datatype 's walk =
    Finished "error + Commit list"
  | Continue "Commit list" 's "sha1 set" "Commit list"

definition walkHistoryLoop_pick ::
  "nat \<Rightarrow> repository \<Rightarrow> CommitComparator \<Rightarrow> Commit list \<Rightarrow> sha1 set
     \<Rightarrow> abort + (error + (Commit \<times> Commit list \<times> sha1 set))" where
  "walkHistoryLoop_pick fuel repo eq roots seen =
     (case simplifyRoots fuel repo roots eq seen of
        Inl a \<Rightarrow> Inl a
      | Inr (Inl err, seen') \<Rightarrow> Inr (Inl err)
      | Inr (Inr roots', seen') \<Rightarrow>
          (case extractNewestCommit roots' of
             Inl a \<Rightarrow> Inl a
           | Inr (next, roots'') \<Rightarrow> Inr (Inr (next, roots'', seen'))))"

definition walkHistoryLoop_act ::
  "repository \<Rightarrow> CommitComparator \<Rightarrow> Commit \<Rightarrow> Commit list \<Rightarrow> sha1 set \<Rightarrow> Commit list
     \<Rightarrow> HistoryWalkerAction \<Rightarrow> 's \<Rightarrow> 's walk" where
  "walkHistoryLoop_act repo eq next roots seen results action s =
     (let (results', seen') =
            (if 0 < (action AND HWTakeCommit)
             then (results @ [next], insert (Id_commit next) seen)
             else (results, seen))
      in case (if 0 < (action AND HWFollowParents)
               then (case parents_fn repo next of
                       Inl err \<Rightarrow> Inl err
                     | Inr pars \<Rightarrow> Inr (mergeRoots pars roots eq seen'))
               else Inr (roots, seen')) of
           Inl err \<Rightarrow> Finished (Inl err)
         | Inr (roots', seen'') \<Rightarrow>
             if 0 < (action AND HWStop) then Finished (Inr results')
             else Continue roots' s seen'' results')"

definition walkHistoryLoop_body ::
  "nat \<Rightarrow> repository \<Rightarrow> 's CommitWalkCallback \<Rightarrow> CommitComparator
     \<Rightarrow> Commit list \<Rightarrow> 's \<Rightarrow> sha1 set \<Rightarrow> Commit list \<Rightarrow> abort + 's walk" where
  "walkHistoryLoop_body fuel repo callback eq roots s seen results =
     (if length roots = 0 then Inr (Finished (Inr results))
      else (case walkHistoryLoop_pick fuel repo eq roots seen of
              Inl a \<Rightarrow> Inl a
            | Inr (Inl err) \<Rightarrow> Inr (Finished (Inl err))
            | Inr (Inr (next, roots', seen')) \<Rightarrow>
                (case callback s next of
                   ((action, Some err), s') \<Rightarrow> Inr (Finished (Inl err))
                 | ((action, None), s') \<Rightarrow>
                     Inr (walkHistoryLoop_act repo eq next roots' seen' results action s'))))"

text \<open>
  The loop of \<open>walkHistoryLoop\<close> from a state, for at most \<open>fuel\<close> passes (the same fuel
  bounds the loop of \<open>skipEqualCommits\<close> in each pass).
\<close>

fun walkHistoryLoop_from ::
  "nat \<Rightarrow> repository \<Rightarrow> 's CommitWalkCallback \<Rightarrow> CommitComparator
     \<Rightarrow> Commit list \<Rightarrow> 's \<Rightarrow> sha1 set \<Rightarrow> Commit list \<Rightarrow> abort + (error + Commit list)" where
  "walkHistoryLoop_from 0 repo callback eq roots s seen results = Inl OutOfFuel"
| "walkHistoryLoop_from (Suc fuel) repo callback eq roots s seen results =
     (case walkHistoryLoop_body (Suc fuel) repo callback eq roots s seen results of
        Inl a \<Rightarrow> Inl a
      | Inr (Finished r) \<Rightarrow> Inr r
      | Inr (Continue roots' s' seen' results') \<Rightarrow>
          walkHistoryLoop_from fuel repo callback eq roots' s' seen' results')"

text \<open>
  The state at the start of pass number \<open>n\<close> (counted from 0), when the walk gets there.
\<close>

fun walkHistoryLoop_state ::
  "nat \<Rightarrow> nat \<Rightarrow> repository \<Rightarrow> 's CommitWalkCallback \<Rightarrow> CommitComparator
     \<Rightarrow> Commit list \<Rightarrow> 's \<Rightarrow> sha1 set \<Rightarrow> Commit list \<Rightarrow> abort + 's walk" where
  "walkHistoryLoop_state 0 fuel repo callback eq roots s seen results =
     Inr (Continue roots s seen results)"
| "walkHistoryLoop_state (Suc n) fuel repo callback eq roots s seen results =
     (case walkHistoryLoop_body fuel repo callback eq roots s seen results of
        Inl a \<Rightarrow> Inl a
      | Inr (Finished r) \<Rightarrow> Inr (Finished r)
      | Inr (Continue roots' s' seen' results') \<Rightarrow>
          walkHistoryLoop_state n fuel repo callback eq roots' s' seen' results')"

definition walkHistoryLoop ::
  "nat \<Rightarrow> repository \<Rightarrow> Commit list \<Rightarrow> 's CommitWalkCallback \<Rightarrow> 's \<Rightarrow> CommitComparator
     \<Rightarrow> abort + (error + Commit list)" where
  "walkHistoryLoop fuel repo roots callback s eq =
     walkHistoryLoop_from fuel repo callback eq roots s {} []"

definition walkFilteredHistory ::
  "nat \<Rightarrow> repository \<Rightarrow> Commit \<Rightarrow> 's CommitWalkCallback \<Rightarrow> 's \<Rightarrow> CommitComparator
     \<Rightarrow> abort + (error + Commit list)" where
  "walkFilteredHistory fuel repo start callback s eq =
     walkHistoryLoop fuel repo [start] callback s eq"

section \<open>Comparators and callbacks\<close>

definition commitRootComparator :: CommitComparator where
  "commitRootComparator current parent = (TreeId current = TreeId parent)"

definition nopComparator :: CommitComparator where
  "nopComparator current parent = False"

text \<open>
  \<open>GetTreeEntryByPath\<close> is a parameter: it returns a tree entry or an error. \<open>err_of\<close> is the
  error of such a result (\<open>nil\<close> is \<open>None\<close>).
\<close>

definition err_of :: "error + 'a \<Rightarrow> error option" where
  "err_of r = (case r of Inl e \<Rightarrow> Some e | Inr v \<Rightarrow> None)"

definition makePathComparator ::
  "(Commit \<Rightarrow> string \<Rightarrow> error + TreeEntry) \<Rightarrow> string \<Rightarrow> CommitComparator" where
  "makePathComparator GetTreeEntryByPath path current parent =
     (let c = GetTreeEntryByPath current path;
          p = GetTreeEntryByPath parent path
      in if err_of c \<noteq> None \<or> err_of p \<noteq> None
         then err_of c = Some ErrNotExist \<and> err_of p = Some ErrNotExist
         else (case (c, p) of
                 (Inr centry, Inr pentry) \<Rightarrow> Id_entry centry = Id_entry pentry
               | other \<Rightarrow> False))"

definition nopCallback :: "'s CommitWalkCallback" where
  "nopCallback s commit = ((HWTakeAndFollow, None), s)"

text \<open>
  \<open>makePager\<close>. The closure owns the variables \<open>skip\<close> and \<open>count\<close>: the state of the pager
  is the state of the wrapped callback and these two. A \<open>nil\<close> callback is \<open>None\<close>. The two
  counters are Go \<open>int\<close>s that are only compared with 0 and decremented; they are integers
  here (a wrap-around needs \<open>2^63\<close> decrements of a negative counter).
\<close>

definition makePager :: "'s CommitWalkCallback option \<Rightarrow> ('s \<times> int \<times> int) CommitWalkCallback" where
  "makePager cb0 =
     (let cb = (case cb0 of None \<Rightarrow> nopCallback | Some f \<Rightarrow> f) in
      (\<lambda>(s, skip, count) commit.
         case cb s commit of
           ((pagerAction, Some err), s') \<Rightarrow> ((pagerAction, Some err), (s', skip, count))
         | ((pagerAction, None), s') \<Rightarrow>
             if pagerAction AND HWTakeCommit = 0 then ((pagerAction, None), (s', skip, count))
             else if skip \<noteq> 0
             then ((pagerAction AND NOT HWTakeCommit, None), (s', skip - 1, count))
             else if count \<noteq> 0
             then (let count' = count - 1;
                       pagerAction' = (if count' = 0 then pagerAction OR HWStop else pagerAction)
                   in ((pagerAction', None), (s', skip, count')))
             else ((HWStop, None), (s', skip, count))))"

section \<open>Definitions that follow the wording of the specification\<close>

text \<open>
  The offset-delta integer as the specification words it, over the bytes that follow the
  size header: \<open>num\<close> starts as the low 7 bits of the first byte; for each continuation
  step (the previous byte has bit 7 set) \<open>num\<close> becomes
  \<open>((num + 1) << 7) | (next byte & 0x7f)\<close>. The result is \<open>num\<close> and the number of
  continuation steps; there is none when the bytes end inside the number.
\<close>

fun offsetDeltaSpec_steps :: "int64 \<Rightarrow> byte \<Rightarrow> byte list \<Rightarrow> (int64 \<times> nat) option" where
  "offsetDeltaSpec_steps num prev [] = (if bit prev 7 then None else Some (num, 0))"
| "offsetDeltaSpec_steps num prev (b # rest) =
     (if bit prev 7
      then map_option (apsnd Suc)
             (offsetDeltaSpec_steps (push_bit 7 (num + 1) OR ucast (take_bit 7 b)) b rest)
      else Some (num, 0))"

definition offsetDeltaSpec :: "byte list \<Rightarrow> (int64 \<times> nat) option" where
  "offsetDeltaSpec bs =
     (case bs of
        [] \<Rightarrow> None
      | first # rest \<Rightarrow> offsetDeltaSpec_steps (ucast (take_bit 7 first)) first rest)"

section \<open>Concrete inputs\<close>

text \<open>
  Stand-ins for the collaborators, used where a statement is evaluated on a concrete pack:
  an id is any 20 bytes, inflating is the identity, a base-128 number is one byte, and
  applying a delta yields the first \<open>n\<close> bytes of the base followed by the delta.
\<close>

definition exampleCollab :: collab where
  "exampleCollab =
     \<lparr> NewId = (\<lambda>bs. if length bs = 20 then Inr bs else Inl (ErrOther ''Length must be 20'')),
       readerDecompressed = (\<lambda>bs. Inr bs),
       readerLittleEndianBase128Number =
         (\<lambda>bs. case bs of [] \<Rightarrow> (0, 0, []) | b # rest \<Rightarrow> (ucast b, 1, rest)),
       readerApplyDelta = (\<lambda>base delta n. (take (nat (sint n)) (base @ delta), None)) \<rparr>"

text \<open>
  A pack with a one-byte blob at offset 0 and, at offset 130, an offset-delta object whose
  distance bytes are \<open>0x80 0x02\<close>.
\<close>

definition offsetPack :: "byte list" where
  "offsetPack = [0x31, 0x41] @ replicate 128 0 @ [0x64, 0x80, 0x02, 1, 3, 0x58, 0x59]"

definition offsetFs :: filesystem where
  "offsetFs = (\<lambda>p. if p = ''a.pack'' then Some offsetPack else None)"

text \<open>
  A pack that starts with a ref-delta object whose 20-byte base id the index of the pack
  does not hold.
\<close>

definition refPack :: "byte list" where
  "refPack = 0x74 # replicate 20 0xAB"

definition refFs :: filesystem where
  "refFs = (\<lambda>p. if p = ''a.pack'' then Some refPack else None)"

definition refIndex :: "string \<Rightarrow> idxFile option" where
  "refIndex =
     (\<lambda>p. if p = ''a.idx''
          then Some \<lparr> indexpath = ''a.idx'', packpath = ''a.pack'', packversion = 2,
                      offsetValues = Map.empty \<rparr>
          else None)"

text \<open>A pack of ten bytes that all have bit 7 set.\<close>

definition contFs :: filesystem where
  "contFs = (\<lambda>p. if p = ''a.pack'' then Some (replicate 10 0xFF) else None)"

text \<open>
  An index file that ends behind the CRC table: magic and version 2, a fanout table whose
  last entry is 1, one id, four CRC bytes, and no offset table. A second one holds the
  32-bit offset \<open>0x80000000\<close> (an index into the 64-bit table) and ends there.
\<close>

definition truncatedIdx :: "byte list" where
  "truncatedIdx =
     [255, 0x74, 0x4F, 0x63, 0, 0, 0, 2] @ replicate 1020 0 @ [0, 0, 0, 1]
       @ replicate 20 0xAA @ replicate 4 0"

definition truncatedFs :: filesystem where
  "truncatedFs = (\<lambda>p. if p = ''a.idx'' then Some truncatedIdx
                      else if p = ''b.idx'' then Some (truncatedIdx @ [0x80, 0, 0, 0])
                      else None)"

text \<open>Commits with one-byte ids and tree ids.\<close>

definition mkCommit :: "byte \<Rightarrow> byte \<Rightarrow> int \<Rightarrow> byte list \<Rightarrow> Commit" where
  "mkCommit i t w ps =
     \<lparr> Id_commit = [i], TreeId = [t],
       Committer = \<lparr> Email = [], Name = [], When = w \<rparr>,
       CommitMessage = [], parents = map (\<lambda>p. [p]) ps \<rparr>"

text \<open>
  A history of four commits: \<open>cA\<close> (time 4) has the parents \<open>cP1\<close> (time 1, a root) and
  \<open>cP2\<close> (time 3); \<open>cP2\<close> has the parent \<open>cQ\<close> (time 2, a root).
\<close>

definition cA :: Commit where "cA = mkCommit 1 1 4 [2, 3]"
definition cP1 :: Commit where "cP1 = mkCommit 2 2 1 []"
definition cP2 :: Commit where "cP2 = mkCommit 3 3 3 [4]"
definition cQ :: Commit where "cQ = mkCommit 4 4 2 []"

definition repoA :: repository where
  "repoA ident =
     (if ident = [1] then Inr cA else if ident = [2] then Inr cP1
      else if ident = [3] then Inr cP2 else if ident = [4] then Inr cQ
      else Inl ErrNotExist)"

text \<open>
  A merge commit \<open>cM\<close> whose two parents \<open>cX\<close> and \<open>cY\<close> are different commits with the same
  tree.
\<close>

definition cM :: Commit where "cM = mkCommit 1 1 3 [2, 3]"
definition cX :: Commit where "cX = mkCommit 2 7 2 []"
definition cY :: Commit where "cY = mkCommit 3 7 1 []"

definition repoM :: repository where
  "repoM ident =
     (if ident = [1] then Inr cM else if ident = [2] then Inr cX
      else if ident = [3] then Inr cY else Inl ErrNotExist)"

text \<open>A callback that follows the parents of every commit and takes none.\<close>

definition followOnly :: "unit CommitWalkCallback" where
  "followOnly s commit = ((HWFollowParents, None), s)"

text \<open>
  A tree lookup for the path \<open>''x''\<close>: the commits with the ids 1 and 2 hold the same entry,
  the commit with the id 3 holds another one, any other commit has no such path; looking up
  any other path fails with an error that is not \<open>ErrNotExist\<close>.
\<close>

definition exampleGet :: "Commit \<Rightarrow> string \<Rightarrow> error + TreeEntry" where
  "exampleGet commit path =
     (if path = ''x''
      then (if Id_commit commit = [1] \<or> Id_commit commit = [2] then Inr \<lparr> Id_entry = [9] \<rparr>
            else if Id_commit commit = [3] then Inr \<lparr> Id_entry = [8] \<rparr>
            else Inl ErrNotExist)
      else Inl (ErrOther ''unexpected EOF''))"



section \<open>Notions used to state the properties of the walker\<close>

text \<open>
  The invariant of the loop of \<open>walkHistoryLoop\<close>: no id occurs twice among the results,
  and the id of every result is in \<open>seen\<close>.
\<close>

definition walk_inv :: "sha1 set \<Rightarrow> Commit list \<Rightarrow> bool" where
  "walk_inv seen results \<longleftrightarrow>
     distinct (map Id_commit results) \<and> Id_commit ` set results \<subseteq> seen"

text \<open>
  \<open>feed cb s cs\<close> lists what a callback returns when it is called on the commits \<open>cs\<close> one
  after the other. A callback \<open>takes\<close> a commit when it returns no error and an action with
  the flag \<open>HWTakeCommit\<close>.
\<close>

fun feed :: "'s CommitWalkCallback \<Rightarrow> 's \<Rightarrow> Commit list \<Rightarrow> (HistoryWalkerAction \<times> error option) list" where
  "feed cb s [] = []"
| "feed cb s (c # cs) = (case cb s c of (r, s') \<Rightarrow> r # feed cb s' cs)"

definition takes :: "HistoryWalkerAction \<times> error option \<Rightarrow> bool" where
  "takes r \<longleftrightarrow> snd r = None \<and> fst r AND HWTakeCommit \<noteq> 0"



section \<open>Properties of the size header\<close>

lemma readLenInPackFile_loop_returns:
  "advance < length shift \<Longrightarrow>
   (\<exists>r. readLenInPackFile_loop buf len advance = Inr r) \<longleftrightarrow>
   (\<exists>k. advance \<le> k \<and> k < length shift \<and> k < length buf \<and> \<not> 0 < (buf ! k AND 0x80))"
proof (induction buf len advance rule: readLenInPackFile_loop.induct)
  case (1 buf len advance)
  let ?P = "\<lambda>k. k < length shift \<and> k < length buf \<and> \<not> 0 < (buf ! k AND 0x80)"
  show ?case
  proof (cases "length buf \<le> advance")
    case True
    then have "readLenInPackFile_loop buf len advance = Inl Panic"
      by (subst readLenInPackFile_loop.simps) simp
    moreover have "\<not> (\<exists>k. advance \<le> k \<and> ?P k)"
      using True by auto
    ultimately show ?thesis by simp
  next
    case inb: False
    show ?thesis
    proof (cases "0 < (buf ! advance AND 0x80)")
      case False
      then have "readLenInPackFile_loop buf len advance = Inr (len, advance + 1)"
        using inb by (subst readLenInPackFile_loop.simps) simp
      moreover have "advance \<le> advance \<and> ?P advance"
        using False inb "1.prems" by simp
      ultimately show ?thesis by blast
    next
      case cont: True
      have step: "advance + 1 \<le> k" if "advance \<le> k" "\<not> 0 < (buf ! k AND 0x80)" for k
      proof -
        have "k \<noteq> advance" using that(2) cont by auto
        with that(1) show ?thesis by simp
      qed
      have shiftdown: "(\<exists>k. advance \<le> k \<and> ?P k) \<longleftrightarrow> (\<exists>k. advance + 1 \<le> k \<and> ?P k)"
      proof
        assume "\<exists>k. advance \<le> k \<and> ?P k"
        then obtain k where k: "advance \<le> k" "?P k" by blast
        then have "advance + 1 \<le> k" using step by blast
        with k show "\<exists>k. advance + 1 \<le> k \<and> ?P k" by blast
      next
        assume "\<exists>k. advance + 1 \<le> k \<and> ?P k"
        then obtain k where k: "advance + 1 \<le> k" "?P k" by blast
        then have "advance \<le> k" by simp
        with k show "\<exists>k. advance \<le> k \<and> ?P k" by blast
      qed
      show ?thesis
      proof (cases "length buf \<le> advance + 1 \<or> length shift \<le> advance + 1")
        case True
        then have "readLenInPackFile_loop buf len advance = Inl Panic"
          using inb cont by (subst readLenInPackFile_loop.simps) auto
        moreover have "\<not> (\<exists>k. advance + 1 \<le> k \<and> ?P k)"
          using True by auto
        ultimately show ?thesis unfolding shiftdown by simp
      next
        case False
        then have a: "\<not> length buf \<le> advance + 1" and b: "\<not> length shift \<le> advance + 1"
          by auto
        have "readLenInPackFile_loop buf len advance =
              readLenInPackFile_loop buf
                 (len + push_bit (unat (shift ! (advance + 1)))
                          (ucast (buf ! (advance + 1) AND 0x7F))) (advance + 1)"
          using inb cont a b by (subst readLenInPackFile_loop.simps) simp
        moreover have "advance + 1 < length shift" using b by simp
        ultimately show ?thesis
          unfolding shiftdown using "1.IH" [OF inb cont a b] by simp
      qed
    qed
  qed
qed

lemma readLenInPackFile_loop_abort:
  "readLenInPackFile_loop buf len advance = Inl a \<Longrightarrow> a = Panic"
proof (induction buf len advance rule: readLenInPackFile_loop.induct)
  case (1 buf len advance)
  from "1.prems" show ?case
    by (subst (asm) readLenInPackFile_loop.simps) (auto split: if_splits intro: "1.IH")
qed

lemma readLenInPackFile_abort: "readLenInPackFile buf = Inl a \<Longrightarrow> a = Panic"
  by (auto simp: readLenInPackFile_def split: if_splits dest: readLenInPackFile_loop_abort)

lemma readLenInPackFile_returns:
  "(\<exists>r. readLenInPackFile buf = Inr r) \<longleftrightarrow>
   (\<exists>k. k < 10 \<and> k < length buf \<and> \<not> 0 < (buf ! k AND 0x80))"
proof (cases "buf = []")
  case True
  then show ?thesis by (simp add: readLenInPackFile_def)
next
  case False
  have len: "length shift = 10" by (simp add: shift_def)
  then have "(0::nat) < length shift" by simp
  from readLenInPackFile_loop_returns [OF this, of buf "ucast (buf ! 0 AND 0x0F)"] False
  show ?thesis unfolding len by (simp add: readLenInPackFile_def)
qed

lemma readLenInPackFile_loop_advance:
  "readLenInPackFile_loop buf len advance = Inr (l, p) \<Longrightarrow> advance < length shift \<Longrightarrow>
   p \<le> length shift"
proof (induction buf len advance rule: readLenInPackFile_loop.induct)
  case (1 buf len advance)
  from "1.prems" show ?case
    by (subst (asm) readLenInPackFile_loop.simps) (auto split: if_splits intro: "1.IH")
qed

lemma readLenInPackFile_advance: "readLenInPackFile buf = Inr (l, p) \<Longrightarrow> p \<le> 10"
proof -
  assume a: "readLenInPackFile buf = Inr (l, p)"
  have len: "length shift = 10" by (simp add: shift_def)
  from a have "readLenInPackFile_loop buf (ucast (buf ! 0 AND 0x0F)) 0 = Inr (l, p)"
    by (simp add: readLenInPackFile_def split: if_splits)
  from readLenInPackFile_loop_advance [OF this] show ?thesis by (simp add: len)
qed

lemma file_Read_nth:
  "k < sz \<Longrightarrow> pos + k < length content \<Longrightarrow>
   fst (file_Read content pos sz) ! k = content ! (pos + k)"
  by (auto simp: file_Read_def Let_def nth_append)

lemma file_Read_length: "length (fst (file_Read content pos sz)) = sz"
  by (auto simp: file_Read_def Let_def)

lemma file_Read_ok:
  "pos < length content \<Longrightarrow> 0 < sz \<Longrightarrow>
   \<exists>n. n \<noteq> 0 \<and> file_Read content pos sz = (fst (file_Read content pos sz), n, None)"
  by (auto simp: file_Read_def Let_def)

lemma readObjectBytes_header_panic:
  assumes "fs path = Some content" "\<not> offset <s 0" "unat offset + 10 \<le> length content"
    "\<forall>k<10. 0 < (content ! (unat offset + k) AND 0x80)"
  shows "readObjectBytes (Suc fuel) c fs path indexfiles offset sizeonly = Inl Panic"
proof -
  have "unat offset < length content" using assms(3) by simp
  from file_Read_ok [OF this, of 1024]
  obtain buf n where n: "n \<noteq> 0"
    and buf: "buf = fst (file_Read content (unat offset) 1024)"
    and rd: "file_Read content (unat offset) 1024 = (buf, n, None)"
    by auto
  have cont: "0 < (buf ! k AND 0x80)" if "k < 10" for k
  proof -
    have "buf ! k = content ! (unat offset + k)"
      unfolding buf using that assms(3) by (intro file_Read_nth) auto
    with assms(4) that show ?thesis by simp
  qed
  have "\<not> (\<exists>r. readLenInPackFile buf = Inr r)"
    unfolding readLenInPackFile_returns using cont by auto
  then obtain a where "readLenInPackFile buf = Inl a"
    by (cases "readLenInPackFile buf") auto
  then have "readLenInPackFile buf = Inl Panic"
    using readLenInPackFile_abort by blast
  then show ?thesis
    using assms(1,2) rd n by simp
qed

text \<open>
  C10. \<open>readLenInPackFile\<close> returns (no index of the buffer or of the ten-entry shift table
  is out of range) if and only if one of the first ten bytes of the buffer, within its
  length, has bit 7 clear; otherwise it panics. \<open>readObjectBytes\<close> does not enforce this:
  on a pack whose ten bytes at the offset all have bit 7 set it panics.
\<close>

theorem readLenInPackFile_in_range:
  "((\<exists>len advance. readLenInPackFile buf = Inr (len, advance)) \<longleftrightarrow>
      (\<exists>k. k < 10 \<and> k < length buf \<and> \<not> 0 < (buf ! k AND 0x80)))
   \<and> (readLenInPackFile buf = Inl Panic \<longleftrightarrow>
      \<not> (\<exists>k. k < 10 \<and> k < length buf \<and> \<not> 0 < (buf ! k AND 0x80)))
   \<and> (fs path = Some content \<and> \<not> offset <s 0 \<and> unat offset + 10 \<le> length content
        \<and> (\<forall>k<10. 0 < (content ! (unat offset + k) AND 0x80))
      \<longrightarrow> readObjectBytes (Suc fuel) c fs path indexfiles offset sizeonly = Inl Panic)"
proof (intro conjI impI)
  show ret: "(\<exists>len advance. readLenInPackFile buf = Inr (len, advance)) \<longleftrightarrow>
      (\<exists>k. k < 10 \<and> k < length buf \<and> \<not> 0 < (buf ! k AND 0x80))"
    using readLenInPackFile_returns [of buf] by simp
  show "readLenInPackFile buf = Inl Panic \<longleftrightarrow>
      \<not> (\<exists>k. k < 10 \<and> k < length buf \<and> \<not> 0 < (buf ! k AND 0x80))"
  proof (cases "readLenInPackFile buf")
    case (Inl a)
    then have "a = Panic" by (rule readLenInPackFile_abort)
    with Inl ret show ?thesis by simp
  next
    case (Inr r)
    with ret show ?thesis by (cases r) auto
  qed
next
  assume "fs path = Some content \<and> \<not> offset <s 0 \<and> unat offset + 10 \<le> length content
        \<and> (\<forall>k<10. 0 < (content ! (unat offset + k) AND 0x80))"
  then show "readObjectBytes (Suc fuel) c fs path indexfiles offset sizeonly = Inl Panic"
    by (intro readObjectBytes_header_panic) auto
qed

theorem readLenInPackFile_in_range_witness:
  "(\<exists>k. k < 10 \<and> k < length [0x85, 0x01 :: byte] \<and> \<not> 0 < ([0x85, 0x01 :: byte] ! k AND 0x80))
   \<and> (\<exists>len advance. readLenInPackFile [0x85, 0x01] = Inr (len, advance))
   \<and> readLenInPackFile (replicate 10 0xFF) = Inl Panic
   \<and> readObjectBytes (Suc 0) exampleCollab contFs ''a.pack'' (\<lambda>p. None) 0 False = Inl Panic"
proof -
  have k: "\<exists>k. k < 10 \<and> k < length [0x85, 0x01 :: byte] \<and> \<not> 0 < ([0x85, 0x01 :: byte] ! k AND 0x80)"
    by (rule exI [of _ 1]) simp
  have nk: "\<not> (\<exists>k. k < 10 \<and> k < length (replicate 10 (0xFF :: byte))
                    \<and> \<not> 0 < (replicate 10 (0xFF :: byte) ! k AND 0x80))"
    by auto
  have h: "contFs ''a.pack'' = Some (replicate 10 0xFF) \<and> \<not> (0 :: uint64) <s 0
        \<and> unat (0 :: uint64) + 10 \<le> length (replicate 10 (0xFF :: byte))
        \<and> (\<forall>k<10. 0 < (replicate 10 (0xFF :: byte) ! (unat (0 :: uint64) + k) AND 0x80))"
    by (simp add: contFs_def)
  from readLenInPackFile_in_range [of "[0x85, 0x01]" contFs "''a.pack''" "replicate 10 0xFF" 0
      0 exampleCollab "\<lambda>p. None" False]
  have a: "\<exists>len advance. readLenInPackFile [0x85, 0x01] = Inr (len, advance)"
    and c: "readObjectBytes (Suc 0) exampleCollab contFs ''a.pack'' (\<lambda>p. None) 0 False = Inl Panic"
    using k h by blast+
  from readLenInPackFile_in_range [of "replicate 10 0xFF" contFs "''a.pack''" "replicate 10 0xFF"
      0 0 exampleCollab "\<lambda>p. None" False]
  have b: "readLenInPackFile (replicate 10 0xFF) = Inl Panic"
    using nk by blast
  from k a b c show ?thesis by blast
qed

section \<open>The offset-delta integer\<close>

lemma byte_cont_bit: "0 < ((b::byte) AND 0x80) \<longleftrightarrow> bit b 7"
proof -
  have "(b AND 2 ^ 7 = 0) \<longleftrightarrow> \<not> bit b 7"
    by (rule and_exp_eq_0_iff_not_bit)
  then show ?thesis by (simp add: word_greater_zero_iff)
qed

lemma byte_low7: "(b::byte) AND 0x7f = take_bit 7 b"
  by (simp add: take_bit_eq_mask mask_eq_exp_minus_1)

lemma ucast_low7: "(ucast (b::byte) :: 64 word) AND 0x7f = ucast (take_bit 7 b)"
proof -
  have "(ucast (take_bit 7 b) :: 64 word) = take_bit 7 (ucast b)"
    by (simp add: unsigned_take_bit_eq)
  then show ?thesis by (simp add: take_bit_eq_mask mask_eq_exp_minus_1)
qed

lemma offsetDelta_loop_refines:
  "pos < length buf \<Longrightarrow>
   offsetDelta_loop buf pos num =
     (case offsetDeltaSpec_steps num (buf ! pos) (drop (pos + 1) buf) of
        None \<Rightarrow> Inl Panic
      | Some (n, k) \<Rightarrow> Inr (n, pos + k))"
proof (induction buf pos num rule: offsetDelta_loop.induct)
  case (1 buf pos num)
  have inb: "\<not> length buf \<le> pos" using "1.prems" by simp
  show ?case
  proof (cases "bit (buf ! pos) 7")
    case False
    then have "offsetDelta_loop buf pos num = Inr (num, pos)"
      using inb by (subst offsetDelta_loop.simps) (simp add: byte_cont_bit)
    moreover have "offsetDeltaSpec_steps num (buf ! pos) (drop (pos + 1) buf) = Some (num, 0)"
      using False by (cases "drop (pos + 1) buf") simp_all
    ultimately show ?thesis by simp
  next
    case cont: True
    then have c: "0 < (buf ! pos AND 0x80)" by (simp add: byte_cont_bit)
    show ?thesis
    proof (cases "length buf \<le> pos + 1")
      case True
      then have "offsetDelta_loop buf pos num = Inl Panic"
        using inb c by (subst offsetDelta_loop.simps) simp
      moreover have "drop (pos + 1) buf = []" using True by simp
      ultimately show ?thesis using cont by simp
    next
      case False
      then have lt: "pos + 1 < length buf" by simp
      let ?num' = "push_bit 7 (num + 1) OR ucast (buf ! (pos + 1) AND 0x7f)"
      have unfold: "offsetDelta_loop buf pos num = offsetDelta_loop buf (pos + 1) ?num'"
        using inb c False by (subst offsetDelta_loop.simps) simp
      have dr: "drop (pos + 1) buf = buf ! (pos + 1) # drop (pos + 1 + 1) buf"
        using lt by (simp add: Cons_nth_drop_Suc)
      have IH: "offsetDelta_loop buf (pos + 1) ?num' =
        (case offsetDeltaSpec_steps ?num' (buf ! (pos + 1)) (drop (pos + 1 + 1) buf) of
           None \<Rightarrow> Inl Panic | Some (n, k) \<Rightarrow> Inr (n, pos + 1 + k))"
        using "1.IH" [OF inb c False lt] .
      show ?thesis
        unfolding unfold IH
        by (subst dr) (simp add: cont byte_low7 split: option.splits)
    qed
  qed
qed

lemma offsetDeltaBase_refines:
  "offsetDeltaBase buf offsetInt pos =
     (case offsetDeltaSpec (drop pos buf) of
        None \<Rightarrow> Inl Panic
      | Some (num, k) \<Rightarrow> Inr (offsetInt - num, pos + k + 1))"
proof (cases "length buf \<le> pos")
  case True
  then show ?thesis by (simp add: offsetDeltaBase_def offsetDeltaSpec_def)
next
  case False
  then have lt: "pos < length buf" by simp
  then have dr: "drop pos buf = buf ! pos # drop (pos + 1) buf"
    by (simp add: Cons_nth_drop_Suc)
  show ?thesis
    unfolding offsetDeltaBase_def offsetDeltaSpec_def
    by (subst dr) (simp add: False offsetDelta_loop_refines [OF lt] ucast_low7 split: option.splits)
qed

text \<open>
  C7. When \<open>readObjectBytes\<close> meets an offset-delta object (type bits \<open>0x60\<close>), the integer
  it decodes from the bytes behind the size header is the one of the specification
  (\<open>offsetDeltaSpec\<close>: the low 7 bits of the first byte, then
  \<open>((num + 1) << 7) | (next & 0x7f)\<close> per continuation step), and the base object is read
  by the recursive call at \<open>offset - num\<close> in the same pack; the bytes ending inside the
  number is a panic.
\<close>

theorem readObjectBytes_offsetDelta:
  assumes "fs path = Some content" and "\<not> offset <s 0" and "unat offset < length content"
    and "buf = fst (file_Read content (unat offset) 1024)"
    and "ucast (buf ! 0 AND 0x70) = (0x60 :: ObjectType)"
    and "readLenInPackFile buf = Inr (l, p)"
  shows "readObjectBytes (Suc fuel) c fs path indexfiles offset sizeonly =
     (case offsetDeltaSpec (drop p buf) of
        None \<Rightarrow> Inl Panic
      | Some (num, k) \<Rightarrow>
          (case readObjectBytes fuel c fs path indexfiles (offset - num) False of
             Inl a \<Rightarrow> Inl a
           | Inr base \<Rightarrow> resolveDelta c content offset (p + k + 1) l sizeonly base))"
proof -
  obtain n where n: "n \<noteq> 0" "file_Read content (unat offset) 1024 = (buf, n, None)"
    using file_Read_ok [OF assms(3), of 1024] assms(4) by auto
  have notplain: "\<not> ((0x60 :: ObjectType) = ObjectCommit \<or> (0x60 :: ObjectType) = ObjectTree
      \<or> (0x60 :: ObjectType) = ObjectBlob \<or> (0x60 :: ObjectType) = ObjectTag)"
    by (simp add: ObjectCommit_def ObjectTree_def ObjectBlob_def ObjectTag_def)
  show ?thesis
    using assms(1,2,5,6) n notplain
    by (simp add: offsetDeltaBase_refines Let_def split: option.splits sum.splits)
qed

theorem readObjectBytes_offsetDelta_witness:
  "offsetDeltaSpec (drop 1 (fst (file_Read offsetPack (unat (130 :: uint64)) 1024))) = Some (130, 1)
   \<and> readObjectBytes (Suc 1) exampleCollab offsetFs ''a.pack'' (\<lambda>p. None) 130 False =
       (case readObjectBytes 1 exampleCollab offsetFs ''a.pack'' (\<lambda>p. None) (130 - 130) False of
          Inl a \<Rightarrow> Inl a
        | Inr base \<Rightarrow> resolveDelta exampleCollab offsetPack 130 (1 + 1 + 1) 4 False base)
   \<and> readObjectBytes (Suc 1) exampleCollab offsetFs ''a.pack'' (\<lambda>p. None) 130 False =
       Inr (0x30, 4, Some [0x41, 0x58, 0x59], None)"
proof -
  have h1: "offsetFs ''a.pack'' = Some offsetPack" by (simp add: offsetFs_def)
  have h2: "\<not> (130 :: uint64) <s 0" by (simp add: word_sless_alt)
  have h3: "unat (130 :: uint64) < length offsetPack" by (simp add: offsetPack_def)
  have h4: "fst (file_Read offsetPack (unat (130 :: uint64)) 1024)
      = fst (file_Read offsetPack (unat (130 :: uint64)) 1024)"
    by (rule refl)
  have h5: "ucast (fst (file_Read offsetPack (unat (130 :: uint64)) 1024) ! 0 AND 0x70)
      = (0x60 :: ObjectType)"
    by code_simp
  have h6: "readLenInPackFile (fst (file_Read offsetPack (unat (130 :: uint64)) 1024)) = Inr (4, 1)"
    by code_simp
  have s: "offsetDeltaSpec (drop 1 (fst (file_Read offsetPack (unat (130 :: uint64)) 1024)))
      = Some (130, 1)"
    by code_simp
  have e: "readObjectBytes (Suc 1) exampleCollab offsetFs ''a.pack'' (\<lambda>p. None) 130 False =
       Inr (0x30, 4, Some [0x41, 0x58, 0x59], None)"
    by code_simp
  have "readObjectBytes (Suc 1) exampleCollab offsetFs ''a.pack'' (\<lambda>p. None) 130 False =
       (case readObjectBytes 1 exampleCollab offsetFs ''a.pack'' (\<lambda>p. None) (130 - 130) False of
          Inl a \<Rightarrow> Inl a
        | Inr base \<Rightarrow> resolveDelta exampleCollab offsetPack 130 (1 + 1 + 1) 4 False base)"
    using readObjectBytes_offsetDelta [where fs = offsetFs and path = "''a.pack''" and fuel = 1
      and c = exampleCollab and indexfiles = "\<lambda>p. None" and sizeonly = False,
      OF h1 h2 h3 h4 h5 h6]
    unfolding s by (simp only: option.case prod.case)
  with s e show ?thesis by (intro conjI)
qed

section \<open>A ref-delta object whose base is not in the index\<close>

lemma readObjectBytes_refDelta_missing:
  assumes "fs path = Some content" and "\<not> offset <s 0" and "unat offset < length content"
    and "buf = fst (file_Read content (unat offset) 1024)"
    and "ucast (buf ! 0 AND 0x70) = (0x70 :: ObjectType)"
    and "readLenInPackFile buf = Inr (l, p)"
    and "NewId c (take 20 (drop p buf)) = Inr ident"
    and "4 \<le> length path"
    and "indexfiles (take (length path - 4) path @ ''idx'') = Some f"
    and "offsetValues f ident = None"
  shows "readObjectBytes (Suc fuel) c fs path indexfiles offset sizeonly = Inl ProcessExit"
proof -
  obtain n where n: "n \<noteq> 0" "file_Read content (unat offset) 1024 = (buf, n, None)"
    using file_Read_ok [OF assms(3), of 1024] assms(4) by auto
  have notplain: "\<not> ((0x70 :: ObjectType) = ObjectCommit \<or> (0x70 :: ObjectType) = ObjectTree
      \<or> (0x70 :: ObjectType) = ObjectBlob \<or> (0x70 :: ObjectType) = ObjectTag)"
    by (simp add: ObjectCommit_def ObjectTree_def ObjectBlob_def ObjectTag_def)
  have "p \<le> 10" using assms(6) by (rule readLenInPackFile_advance)
  moreover have "length buf = 1024" unfolding assms(4) by (rule file_Read_length)
  ultimately have len: "\<not> length buf < p + 20" by simp
  have "refDeltaBase c buf path indexfiles p = Inl ProcessExit"
    using len assms(7-10) by (simp add: refDeltaBase_def)
  then show ?thesis
    using assms(1,2,5,6) n notplain by (simp add: Let_def)
qed

text \<open>
  C3 (the code differs). A pack that starts with a ref-delta object whose base id is not
  in the offset map of the pack's index: \<open>readObjectBytes\<close> does not return an error to its
  caller, the process exits in \<open>log.Fatal\<close>.
\<close>

theorem readObjectBytes_refDelta_exits:
  "readObjectBytes (Suc 0) exampleCollab refFs ''a.pack'' refIndex 0 False = Inl ProcessExit"
  by code_simp

section \<open>A short read in the offset tables of an index\<close>

lemma readOffsets32_short:
  "length r < 4 * length ids \<Longrightarrow> readOffsets32 ids r m links = None"
proof (induction ids arbitrary: r m links)
  case Nil
  then show ?case by simp
next
  case (Cons ident ids)
  show ?case
  proof (cases "4 \<le> length r")
    case False
    then show ?thesis by (simp add: io_ReadFull_def)
  next
    case True
    have "length (drop 4 r) < 4 * length ids" using Cons.prems True by simp
    then have "\<And>m links. readOffsets32 ids (drop 4 r) m links = None" by (rule Cons.IH)
    then show ?thesis using True by (simp add: io_ReadFull_def split: prod.splits)
  qed
qed

lemma nil_nil_result:
  "(case r of Inr (None, None) \<Rightarrow> True | other \<Rightarrow> False) \<Longrightarrow> r = Inr (None, None)"
  by (auto split: sum.splits option.splits prod.splits)

text \<open>
  C4 (the code differs). An index file that ends inside the table of 32-bit offsets, and
  one that ends inside the table of 64-bit offsets: \<open>readIdxFile\<close> returns \<open>(nil, nil)\<close>, a
  \<open>nil\<close> error, on both.
\<close>

theorem readIdxFile_truncated_offsets:
  "readIdxFile (\<lambda>b. replicate 20 0) truncatedFs ''a.idx'' = Inr (None, None)
   \<and> readIdxFile (\<lambda>b. replicate 20 0) truncatedFs ''b.idx'' = Inr (None, None)"
proof -
  have a: "case readIdxFile (\<lambda>b. replicate 20 0) truncatedFs ''a.idx'' of
             Inr (None, None) \<Rightarrow> True | other \<Rightarrow> False"
    by code_simp
  have b: "case readIdxFile (\<lambda>b. replicate 20 0) truncatedFs ''b.idx'' of
             Inr (None, None) \<Rightarrow> True | other \<Rightarrow> False"
    by code_simp
  from a b show ?thesis
    by (intro conjI nil_nil_result)
qed

section \<open>The walker on concrete histories\<close>

text \<open>
  C1 (the code differs). On the frontier \<open>[cP1, cP2]\<close>, where \<open>cP2\<close> is the newer commit,
  \<open>extractNewestCommit\<close> returns \<open>cP2\<close> but removes \<open>cP1\<close>: the frontier it returns still
  holds \<open>cP2\<close> and has lost \<open>cP1\<close>. The same happens in the pass of the walker that starts
  with this frontier.
\<close>

theorem extractNewestCommit_removes_neighbour:
  "extractNewestCommit [cP1, cP2] = Inr (cP2, [cP2])
   \<and> walkHistoryLoop_pick 10 repoA nopComparator [cP1, cP2] {[1]} = Inr (Inr (cP2, [cP2], {[1]}))"
  by code_simp

text \<open>
  A consequence for a whole walk: with the callback that takes and follows every commit
  and the comparator that is always false, the walk from \<open>cA\<close> returns \<open>[cA, cP2, cQ]\<close>.
  The commit \<open>cP1\<close>, a parent of \<open>cA\<close>, was removed from the frontier in place of \<open>cP2\<close>
  and is never visited.
\<close>

lemma walkFilteredHistory_misses_commit:
  "walkFilteredHistory 10 repoA cA nopCallback () nopComparator = Inr (Inr [cA, cP2, cQ])"
  by code_simp

text \<open>
  C6 (the code differs). With the comparator of \<open>walkHistory\<close>, the walk from the merge
  commit \<open>cM\<close> starts its second pass with the frontier \<open>[cX, cY]\<close>, two different commits
  that the comparator holds equal.
\<close>

theorem walkHistoryLoop_frontier_equivalent:
  "walkHistoryLoop_state 1 10 repoM nopCallback commitRootComparator [cM] () {} []
     = Inr (Continue [cX, cY] () {[1]} [cM])
   \<and> commitRootComparator cX cY \<and> cX \<noteq> cY"
  by code_simp

section \<open>The path comparator\<close>

text \<open>
  C9. The comparator of \<open>makePathComparator\<close> is true exactly when both lookups succeed
  with equal entry ids or both fail with \<open>ErrNotExist\<close>; when one of them fails with any
  other error it is false. Its result is a truth value: no error reaches the walker.
\<close>

theorem makePathComparator_iff:
  "(makePathComparator get path current parent \<longleftrightarrow>
      (\<exists>centry pentry. get current path = Inr centry \<and> get parent path = Inr pentry
          \<and> Id_entry centry = Id_entry pentry)
      \<or> (get current path = Inl ErrNotExist \<and> get parent path = Inl ErrNotExist))
   \<and> ((\<exists>e. e \<noteq> ErrNotExist \<and> (get current path = Inl e \<or> get parent path = Inl e))
        \<longrightarrow> \<not> makePathComparator get path current parent)"
  by (cases "get current path"; cases "get parent path")
     (auto simp: makePathComparator_def err_of_def Let_def)

theorem makePathComparator_iff_witness:
  "makePathComparator exampleGet ''x'' cM cX
   \<and> \<not> makePathComparator exampleGet ''x'' cM cY
   \<and> makePathComparator exampleGet ''x'' cQ cQ
   \<and> \<not> makePathComparator exampleGet ''y'' cM cX"
proof -
  have same: "\<exists>centry pentry. exampleGet cM ''x'' = Inr centry \<and> exampleGet cX ''x'' = Inr pentry
      \<and> Id_entry centry = Id_entry pentry"
    by (simp add: exampleGet_def cM_def cX_def mkCommit_def)
  have differ: "\<not> ((\<exists>centry pentry. exampleGet cM ''x'' = Inr centry
        \<and> exampleGet cY ''x'' = Inr pentry \<and> Id_entry centry = Id_entry pentry)
      \<or> (exampleGet cM ''x'' = Inl ErrNotExist \<and> exampleGet cY ''x'' = Inl ErrNotExist))"
    by (simp add: exampleGet_def cM_def cY_def mkCommit_def)
  have absent: "exampleGet cQ ''x'' = Inl ErrNotExist \<and> exampleGet cQ ''x'' = Inl ErrNotExist"
    by (simp add: exampleGet_def cQ_def mkCommit_def)
  have other: "\<exists>e. e \<noteq> ErrNotExist \<and> (exampleGet cM ''y'' = Inl e \<or> exampleGet cX ''y'' = Inl e)"
    by (simp add: exampleGet_def)
  from makePathComparator_iff [of exampleGet "''x''" cM cX] same
  have 1: "makePathComparator exampleGet ''x'' cM cX" by blast
  from makePathComparator_iff [of exampleGet "''x''" cM cY] differ
  have 2: "\<not> makePathComparator exampleGet ''x'' cM cY" by blast
  from makePathComparator_iff [of exampleGet "''x''" cQ cQ] absent
  have 3: "makePathComparator exampleGet ''x'' cQ cQ" by blast
  from makePathComparator_iff [of exampleGet "''y''" cM cX] other
  have 4: "\<not> makePathComparator exampleGet ''y'' cM cX" by blast
  from 1 2 3 4 show ?thesis by (intro conjI)
qed

section \<open>The results of a walk hold no id twice\<close>

lemma skipEqualCommits_seen:
  "skipEqualCommits fuel repo commit eq seen = Inr ((r, e), seen') \<Longrightarrow>
   seen \<subseteq> seen' \<and> (\<forall>c. r = Some c \<longrightarrow> Id_commit c \<notin> seen')"
proof (induction fuel repo commit eq seen rule: skipEqualCommits.induct)
  case (1 repo commit eq seen)
  then show ?case by simp
next
  case (2 fuel repo commit eq seen)
  show ?case
  proof (cases "Id_commit commit \<in> seen \<or> length (parents commit) = 0")
    case True
    with "2.prems" show ?thesis by (auto split: if_splits)
  next
    case False
    then have a: "Id_commit commit \<notin> seen" and b: "length (parents commit) \<noteq> 0" by auto
    show ?thesis
    proof (cases "equalParent repo eq commit 0 (ParentCount commit)")
      case (Inl err)
      with "2.prems" a b show ?thesis by auto
    next
      case (Inr found)
      show ?thesis
      proof (cases found)
        case None
        with "2.prems" a b Inr show ?thesis by auto
      next
        case (Some parent)
        with "2.prems" a b Inr
        have "skipEqualCommits fuel repo parent eq (insert (Id_commit commit) seen)
                = Inr ((r, e), seen')"
          by simp
        from "2.IH" [OF a b Inr Some this] show ?thesis by auto
      qed
    qed
  qed
qed

lemma simplifyRoots_loop_seen:
  "simplifyRoots_loop fuel repo roots eq seen acc = Inr (Inr roots', seen') \<Longrightarrow>
   S \<subseteq> seen \<Longrightarrow> (\<forall>c\<in>set acc. Id_commit c \<notin> S) \<Longrightarrow>
   S \<subseteq> seen' \<and> (\<forall>c\<in>set roots'. Id_commit c \<notin> S)"
proof (induction roots arbitrary: seen acc)
  case Nil
  then show ?case by auto
next
  case (Cons commit rest)
  from Cons.prems(1) obtain r e seen1 where
    sk: "skipEqualCommits fuel repo commit eq seen = Inr ((r, e), seen1)"
    by (cases "skipEqualCommits fuel repo commit eq seen") (auto split: prod.splits)
  from skipEqualCommits_seen [OF sk]
  have mono: "seen \<subseteq> seen1" and fresh: "\<forall>c. r = Some c \<longrightarrow> Id_commit c \<notin> seen1" by auto
  have S1: "S \<subseteq> seen1" using Cons.prems(2) mono by auto
  show ?case
  proof (cases e)
    case (Some err)
    with Cons.prems(1) sk show ?thesis by (simp split: option.splits)
  next
    case None
    show ?thesis
    proof (cases r)
      case rNone: None
      with Cons.prems(1) sk None
      have "simplifyRoots_loop fuel repo rest eq seen1 acc = Inr (Inr roots', seen')" by simp
      from Cons.IH [OF this S1 Cons.prems(3)] show ?thesis .
    next
      case (Some c)
      with Cons.prems(1) sk None
      have step: "simplifyRoots_loop fuel repo rest eq seen1 (acc @ [c]) = Inr (Inr roots', seen')"
        by simp
      have "Id_commit c \<notin> S" using fresh Some S1 by auto
      then have "\<forall>c\<in>set (acc @ [c]). Id_commit c \<notin> S" using Cons.prems(3) by auto
      from Cons.IH [OF step S1 this] show ?thesis .
    qed
  qed
qed

lemma extractNewestCommit_loop_member:
  "extractNewestCommit_loop xs idx target targetIdx = (t, ti) \<Longrightarrow> t = target \<or> t \<in> set xs"
  by (induction xs arbitrary: idx target targetIdx) (auto split: if_splits)

lemma extractNewestCommit_member:
  "extractNewestCommit roots = Inr (next, rest) \<Longrightarrow> next \<in> set roots"
proof -
  assume a: "extractNewestCommit roots = Inr (next, rest)"
  show ?thesis
  proof (cases roots)
    case Nil
    with a show ?thesis by (simp add: extractNewestCommit_def)
  next
    case (Cons r rs)
    show ?thesis
    proof (cases "rs = []")
      case True
      with a Cons show ?thesis by (simp add: extractNewestCommit_def)
    next
      case False
      with a Cons obtain ti where "extractNewestCommit_loop rs 0 r 0 = (next, ti)"
        by (auto simp: extractNewestCommit_def split: prod.splits)
      from extractNewestCommit_loop_member [OF this] Cons show ?thesis by auto
    qed
  qed
qed

lemma walkHistoryLoop_pick_fresh:
  "walkHistoryLoop_pick fuel repo eq roots seen = Inr (Inr (next, roots', seen')) \<Longrightarrow>
   seen \<subseteq> seen' \<and> Id_commit next \<notin> seen"
proof -
  assume a: "walkHistoryLoop_pick fuel repo eq roots seen = Inr (Inr (next, roots', seen'))"
  then obtain roots1 where
    s: "simplifyRoots_loop fuel repo roots eq seen [] = Inr (Inr roots1, seen')"
    and e: "extractNewestCommit roots1 = Inr (next, roots')"
    by (auto simp: walkHistoryLoop_pick_def simplifyRoots_def split: sum.splits prod.splits)
  from simplifyRoots_loop_seen [OF s, of seen]
  have "seen \<subseteq> seen'" and "\<forall>c\<in>set roots1. Id_commit c \<notin> seen" by auto
  with extractNewestCommit_member [OF e] show ?thesis by auto
qed

lemma mergeRoots_loop_seen:
  "mergeRoots_loop base merging eq seen acc = (roots', seen') \<Longrightarrow> seen \<subseteq> seen'"
  by (induction merging arbitrary: seen acc) (auto split: if_splits)

lemma mergeRoots_seen: "mergeRoots base merging eq seen = (roots', seen') \<Longrightarrow> seen \<subseteq> seen'"
  unfolding mergeRoots_def by (rule mergeRoots_loop_seen)

lemma walkHistoryLoop_act_inv:
  assumes "walk_inv seen0 results" and "Id_commit next \<notin> seen0" and "seen0 \<subseteq> seen"
  shows "case walkHistoryLoop_act repo eq next roots seen results action s of
           Finished (Inl err) \<Rightarrow> True
         | Finished (Inr res) \<Rightarrow> distinct (map Id_commit res)
         | Continue roots' s' seen' results' \<Rightarrow> walk_inv seen' results'"
proof -
  define results1 where
    "results1 = (if 0 < (action AND HWTakeCommit) then results @ [next] else results)"
  define seen1 where
    "seen1 = (if 0 < (action AND HWTakeCommit) then insert (Id_commit next) seen else seen)"
  have inv1: "walk_inv seen1 results1"
    using assms unfolding walk_inv_def results1_def seen1_def by auto
  then have d1: "distinct (map Id_commit results1)" by (simp add: walk_inv_def)
  have act: "walkHistoryLoop_act repo eq next roots seen results action s =
     (case (if 0 < (action AND HWFollowParents)
            then (case parents_fn repo next of
                    Inl err \<Rightarrow> Inl err
                  | Inr pars \<Rightarrow> Inr (mergeRoots pars roots eq seen1))
            else Inr (roots, seen1)) of
        Inl err \<Rightarrow> Finished (Inl err)
      | Inr (roots', seen'') \<Rightarrow>
          if 0 < (action AND HWStop) then Finished (Inr results1)
          else Continue roots' s seen'' results1)"
    unfolding walkHistoryLoop_act_def results1_def seen1_def by simp
  show ?thesis
  proof (cases "0 < (action AND HWFollowParents)")
    case False
    then show ?thesis unfolding act using inv1 d1 by simp
  next
    case True
    show ?thesis
    proof (cases "parents_fn repo next")
      case (Inl err)
      with True show ?thesis unfolding act by simp
    next
      case (Inr pars)
      obtain roots2 seen2 where m: "mergeRoots pars roots eq seen1 = (roots2, seen2)"
        by (cases "mergeRoots pars roots eq seen1") auto
      from mergeRoots_seen [OF m] inv1 have "walk_inv seen2 results1"
        unfolding walk_inv_def by auto
      with d1 True Inr m show ?thesis unfolding act by simp
    qed
  qed
qed

lemma walkHistoryLoop_body_inv:
  assumes "walk_inv seen results"
  shows "case walkHistoryLoop_body fuel repo callback eq roots s seen results of
           Inl a \<Rightarrow> True
         | Inr (Finished (Inl err)) \<Rightarrow> True
         | Inr (Finished (Inr res)) \<Rightarrow> distinct (map Id_commit res)
         | Inr (Continue roots' s' seen' results') \<Rightarrow> walk_inv seen' results'"
proof (cases "length roots = 0")
  case True
  then show ?thesis using assms by (simp add: walkHistoryLoop_body_def walk_inv_def)
next
  case False
  show ?thesis
  proof (cases "walkHistoryLoop_pick fuel repo eq roots seen")
    case (Inl a)
    with False show ?thesis by (simp add: walkHistoryLoop_body_def)
  next
    case (Inr picked)
    show ?thesis
    proof (cases picked)
      case (Inl err)
      with False Inr show ?thesis by (simp add: walkHistoryLoop_body_def)
    next
      case pk: (Inr triple)
      obtain "next" roots1 seen1 where t: "triple = (next, roots1, seen1)"
        by (cases triple) auto
      from walkHistoryLoop_pick_fresh [of fuel repo eq roots seen "next" roots1 seen1] Inr pk t
      have fresh: "seen \<subseteq> seen1" "Id_commit next \<notin> seen" by auto
      obtain action e s' where cb: "callback s next = ((action, e), s')"
        by (cases "callback s next") auto
      show ?thesis
      proof (cases e)
        case (Some err)
        with False Inr pk t cb show ?thesis by (simp add: walkHistoryLoop_body_def)
      next
        case None
        with False Inr pk t cb
        have "walkHistoryLoop_body fuel repo callback eq roots s seen results =
                Inr (walkHistoryLoop_act repo eq next roots1 seen1 results action s')"
          by (simp add: walkHistoryLoop_body_def)
        with walkHistoryLoop_act_inv [OF assms fresh(2) fresh(1), of repo eq roots1 action s']
        show ?thesis by simp
      qed
    qed
  qed
qed

lemma walkHistoryLoop_from_distinct:
  "walkHistoryLoop_from fuel repo callback eq roots s seen results = Inr (Inr res) \<Longrightarrow>
   walk_inv seen results \<Longrightarrow> distinct (map Id_commit res)"
proof (induction fuel arbitrary: roots s seen results)
  case 0
  then show ?case by simp
next
  case (Suc fuel)
  from walkHistoryLoop_body_inv [OF Suc.prems(2), of "Suc fuel" repo callback eq roots s]
  have b: "case walkHistoryLoop_body (Suc fuel) repo callback eq roots s seen results of
           Inl a \<Rightarrow> True
         | Inr (Finished (Inl err)) \<Rightarrow> True
         | Inr (Finished (Inr res)) \<Rightarrow> distinct (map Id_commit res)
         | Inr (Continue roots' s' seen' results') \<Rightarrow> walk_inv seen' results'" .
  show ?case
  proof (cases "walkHistoryLoop_body (Suc fuel) repo callback eq roots s seen results")
    case (Inl a)
    with Suc.prems(1) show ?thesis by simp
  next
    case (Inr w)
    show ?thesis
    proof (cases w)
      case (Finished r)
      with Inr Suc.prems(1) b show ?thesis by auto
    next
      case (Continue roots' s' seen' results')
      with Inr Suc.prems(1)
      have "walkHistoryLoop_from fuel repo callback eq roots' s' seen' results' = Inr (Inr res)"
        by simp
      moreover have "walk_inv seen' results'" using b Inr Continue by simp
      ultimately show ?thesis by (rule Suc.IH)
    qed
  qed
qed

text \<open>
  C5. Whatever the roots, the callback (with any state of its own), the comparator and the
  repository: when \<open>walkHistoryLoop\<close> returns results, no commit id occurs twice among
  them, that is, the number of results is the number of their distinct ids.
\<close>

theorem walkHistoryLoop_results_unique:
  "walkHistoryLoop fuel repo roots callback s eq = Inr (Inr results) \<Longrightarrow>
   distinct (map Id_commit results) \<and> length results = card (Id_commit ` set results)"
proof -
  assume a: "walkHistoryLoop fuel repo roots callback s eq = Inr (Inr results)"
  have "walk_inv {} []" by (simp add: walk_inv_def)
  with a have d: "distinct (map Id_commit results)"
    unfolding walkHistoryLoop_def by (rule walkHistoryLoop_from_distinct)
  then have "card (set (map Id_commit results)) = length (map Id_commit results)"
    by (rule distinct_card)
  with d show ?thesis by simp
qed

theorem walkHistoryLoop_results_unique_witness:
  "walkHistoryLoop 10 repoA [cA] nopCallback () nopComparator = Inr (Inr [cA, cP2, cQ])
   \<and> distinct (map Id_commit [cA, cP2, cQ])
   \<and> length [cA, cP2, cQ] = card (Id_commit ` set [cA, cP2, cQ])"
proof -
  have h: "walkHistoryLoop 10 repoA [cA] nopCallback () nopComparator = Inr (Inr [cA, cP2, cQ])"
    by code_simp
  from h walkHistoryLoop_results_unique [OF h] show ?thesis by (rule conjI)
qed

section \<open>The flags of an action\<close>

lemma flag_zero_iff_bit: "((a::int) AND push_bit n 1 = 0) \<longleftrightarrow> \<not> bit a n"
  using and_exp_eq_0_iff_not_bit [of a n] by (simp add: push_bit_eq_mult)

lemma flag_pos_iff_bit: "0 < ((a::int) AND push_bit n 1) \<longleftrightarrow> bit a n"
proof -
  have "0 \<le> a AND push_bit n 1" by simp
  then have "0 < (a AND push_bit n 1) \<longleftrightarrow> a AND push_bit n 1 \<noteq> 0" by linarith
  then show ?thesis by (simp only: flag_zero_iff_bit simp_thms)
qed

lemma bit_flag: "bit (push_bit m (1::int)) n \<longleftrightarrow> n = m"
  by (simp only: bit_push_bit_iff bit_1_iff) auto

lemma takes_iff: "0 < (a AND HWTakeCommit) \<longleftrightarrow> bit a 1"
  unfolding HWTakeCommit_def by (rule flag_pos_iff_bit)
lemma follows_iff: "0 < (a AND HWFollowParents) \<longleftrightarrow> bit a 2"
  unfolding HWFollowParents_def by (rule flag_pos_iff_bit)
lemma stops_iff: "0 < (a AND HWStop) \<longleftrightarrow> bit a 3"
  unfolding HWStop_def by (rule flag_pos_iff_bit)
lemma takes_zero_iff: "(a AND HWTakeCommit = 0) \<longleftrightarrow> \<not> bit a 1"
  unfolding HWTakeCommit_def by (rule flag_zero_iff_bit)

lemma bit_stop: "bit HWStop n \<longleftrightarrow> n = 3"
  unfolding HWStop_def by (rule bit_flag)

lemma bit_or_stop: "bit (a OR HWStop) n \<longleftrightarrow> bit a n \<or> n = 3"
  by (simp only: bit_or_iff bit_stop)

lemma bit_strip_take: "bit (a AND NOT HWTakeCommit) n \<longleftrightarrow> bit a n \<and> n \<noteq> 1"
  unfolding HWTakeCommit_def by (simp only: bit_and_iff bit_not_iff bit_flag) simp


text \<open>The second half of a pass, by the three flags of the action.\<close>

lemma walkHistoryLoop_act_flags:
  "walkHistoryLoop_act repo eq next roots seen results action s =
     (let results' = (if bit action 1 then results @ [next] else results);
          seen' = (if bit action 1 then insert (Id_commit next) seen else seen)
      in case (if bit action 2
               then (case parents_fn repo next of
                       Inl err \<Rightarrow> Inl err
                     | Inr pars \<Rightarrow> Inr (mergeRoots pars roots eq seen'))
               else Inr (roots, seen')) of
           Inl err \<Rightarrow> Finished (Inl err)
         | Inr (roots', seen'') \<Rightarrow>
             if bit action 3 then Finished (Inr results')
             else Continue roots' s seen'' results')"
  unfolding walkHistoryLoop_act_def takes_iff follows_iff stops_iff by (simp add: Let_def)

lemma walkHistoryLoop_act_stop:
  "walkHistoryLoop_act repo eq next roots seen results HWStop s = Finished (Inr results)"
  unfolding walkHistoryLoop_act_flags by (simp add: bit_stop)

lemma walkHistoryLoop_act_or_stop:
  "walkHistoryLoop_act repo eq next roots seen results (a OR HWStop) t =
     (case walkHistoryLoop_act repo eq next roots seen results a s of
        Finished r \<Rightarrow> Finished r
      | Continue roots' s' seen' results' \<Rightarrow> Finished (Inr results'))"
  unfolding walkHistoryLoop_act_flags
  by (simp add: bit_or_stop Let_def split: sum.splits prod.splits)

lemma walkHistoryLoop_act_state:
  "walkHistoryLoop_act repo eq next roots seen results a t =
     (case walkHistoryLoop_act repo eq next roots seen results a s of
        Finished r \<Rightarrow> Finished r
      | Continue roots' s' seen' results' \<Rightarrow> Continue roots' t seen' results')"
  unfolding walkHistoryLoop_act_flags
  by (simp add: Let_def split: sum.splits prod.splits)

lemma walkHistoryLoop_act_results:
  "(walkHistoryLoop_act repo eq next roots seen results a s = Continue roots' s' seen' results'
      \<longrightarrow> results' = (if bit a 1 then results @ [next] else results))
   \<and> (walkHistoryLoop_act repo eq next roots seen results a s = Finished (Inr res)
      \<longrightarrow> res = (if bit a 1 then results @ [next] else results))"
  unfolding walkHistoryLoop_act_flags
  by (auto simp: Let_def split: sum.splits prod.splits if_splits)

section \<open>The pager\<close>

lemma makePager_error:
  "cb s c = ((a, Some err), s') \<Longrightarrow>
   makePager (Some cb) (s, skip, count) c = ((a, Some err), (s', skip, count))"
  by (simp add: makePager_def)

lemma makePager_not_taken:
  "cb s c = ((a, None), s') \<Longrightarrow> \<not> bit a 1 \<Longrightarrow>
   makePager (Some cb) (s, skip, count) c = ((a, None), (s', skip, count))"
  by (simp add: makePager_def takes_zero_iff)

lemma makePager_skip:
  "cb s c = ((a, None), s') \<Longrightarrow> bit a 1 \<Longrightarrow> skip \<noteq> 0 \<Longrightarrow>
   makePager (Some cb) (s, skip, count) c
     = ((a AND NOT HWTakeCommit, None), (s', skip - 1, count))"
  by (simp add: makePager_def takes_zero_iff)

lemma makePager_count:
  "cb s c = ((a, None), s') \<Longrightarrow> bit a 1 \<Longrightarrow> count \<noteq> 0 \<Longrightarrow>
   makePager (Some cb) (s, 0, count) c
     = ((if count = 1 then a OR HWStop else a, None), (s', 0, count - 1))"
  by (simp add: makePager_def takes_zero_iff Let_def)

lemma makePager_exhausted:
  "cb s c = ((a, None), s') \<Longrightarrow> bit a 1 \<Longrightarrow>
   makePager (Some cb) (s, 0, 0) c = ((HWStop, None), (s', 0, 0))"
  by (simp add: makePager_def takes_zero_iff)

text \<open>What a pass does, by the result of its first half and of the callback.\<close>

lemma walkHistoryLoop_body_empty:
  "walkHistoryLoop_body fuel repo callback eq [] s seen results = Inr (Finished (Inr results))"
  by (simp add: walkHistoryLoop_body_def)

lemma walkHistoryLoop_body_abort:
  "roots \<noteq> [] \<Longrightarrow> walkHistoryLoop_pick fuel repo eq roots seen = Inl a \<Longrightarrow>
   walkHistoryLoop_body fuel repo callback eq roots s seen results = Inl a"
  by (simp add: walkHistoryLoop_body_def)

lemma walkHistoryLoop_body_pick_error:
  "roots \<noteq> [] \<Longrightarrow> walkHistoryLoop_pick fuel repo eq roots seen = Inr (Inl err) \<Longrightarrow>
   walkHistoryLoop_body fuel repo callback eq roots s seen results = Inr (Finished (Inl err))"
  by (simp add: walkHistoryLoop_body_def)

lemma walkHistoryLoop_body_callback_error:
  "roots \<noteq> [] \<Longrightarrow>
   walkHistoryLoop_pick fuel repo eq roots seen = Inr (Inr (next, roots', seen')) \<Longrightarrow>
   callback s next = ((a, Some err), s') \<Longrightarrow>
   walkHistoryLoop_body fuel repo callback eq roots s seen results = Inr (Finished (Inl err))"
  by (simp add: walkHistoryLoop_body_def)

lemma walkHistoryLoop_body_act:
  "roots \<noteq> [] \<Longrightarrow>
   walkHistoryLoop_pick fuel repo eq roots seen = Inr (Inr (next, roots', seen')) \<Longrightarrow>
   callback s next = ((a, None), s') \<Longrightarrow>
   walkHistoryLoop_body fuel repo callback eq roots s seen results
     = Inr (walkHistoryLoop_act repo eq next roots' seen' results a s')"
  by (simp add: walkHistoryLoop_body_def)

lemma walkHistoryLoop_act_extends:
  "walkHistoryLoop_act repo eq next roots seen results a s = w \<Longrightarrow>
   w = Continue roots' s' seen' res \<or> w = Finished (Inr res) \<Longrightarrow> \<exists>ys. res = results @ ys"
  using walkHistoryLoop_act_results [of repo eq "next" roots seen results a s roots' s' seen' res res]
  by auto

lemma walkHistoryLoop_body_extends:
  assumes "walkHistoryLoop_body fuel repo callback eq roots s seen results = Inr w"
    and "w = Continue roots' s' seen' res \<or> w = Finished (Inr res)"
  shows "\<exists>ys. res = results @ ys"
proof (cases "roots = []")
  case True
  with assms show ?thesis by (auto simp: walkHistoryLoop_body_empty)
next
  case ne: False
  show ?thesis
  proof (cases "walkHistoryLoop_pick fuel repo eq roots seen")
    case (Inl a)
    with ne assms show ?thesis by (simp add: walkHistoryLoop_body_abort)
  next
    case (Inr picked)
    show ?thesis
    proof (cases picked)
      case (Inl err)
      with ne Inr assms show ?thesis by (auto simp: walkHistoryLoop_body_pick_error)
    next
      case pk: (Inr triple)
      obtain "next" roots1 seen1 where t: "triple = (next, roots1, seen1)"
        by (cases triple) auto
      obtain a e s1 where cb: "callback s next = ((a, e), s1)"
        by (cases "callback s next") auto
      have p: "walkHistoryLoop_pick fuel repo eq roots seen = Inr (Inr (next, roots1, seen1))"
        using Inr pk t by simp
      show ?thesis
      proof (cases e)
        case (Some err)
        with cb have "callback s next = ((a, Some err), s1)" by simp
        from walkHistoryLoop_body_callback_error [where callback = callback and s = s and results = results,
            OF ne p this] assms
        show ?thesis by auto
      next
        case None
        with cb have "callback s next = ((a, None), s1)" by simp
        from walkHistoryLoop_body_act [where callback = callback and s = s and results = results,
            OF ne p this] assms(1)
        have "walkHistoryLoop_act repo eq next roots1 seen1 results a s1 = w" by simp
        from walkHistoryLoop_act_extends [OF this assms(2)] show ?thesis .
      qed
    qed
  qed
qed

lemma walkHistoryLoop_from_extends:
  "walkHistoryLoop_from fuel repo callback eq roots s seen results = Inr (Inr res) \<Longrightarrow>
   \<exists>ys. res = results @ ys"
proof (induction fuel arbitrary: roots s seen results)
  case 0
  then show ?case by simp
next
  case (Suc fuel)
  show ?case
  proof (cases "walkHistoryLoop_body (Suc fuel) repo callback eq roots s seen results")
    case (Inl a)
    with Suc.prems show ?thesis by simp
  next
    case (Inr w)
    show ?thesis
    proof (cases w)
      case (Finished r)
      with Inr Suc.prems have "w = Finished (Inr res)" by simp
      with walkHistoryLoop_body_extends [OF Inr] show ?thesis by blast
    next
      case (Continue roots' s' seen' results')
      with Inr Suc.prems
      have "walkHistoryLoop_from fuel repo callback eq roots' s' seen' results' = Inr (Inr res)"
        by simp
      from Suc.IH [OF this] obtain ys where ys: "res = results' @ ys" by blast
      from walkHistoryLoop_body_extends [OF Inr] Continue
      obtain zs where "results' = results @ zs" by blast
      with ys show ?thesis by simp
    qed
  qed
qed

lemma walkHistoryLoop_act_continue_state:
  "walkHistoryLoop_act repo eq next roots seen results a s = Continue roots' s' seen' results'
   \<Longrightarrow> s' = s"
  unfolding walkHistoryLoop_act_flags
  by (auto simp: Let_def split: sum.splits prod.splits if_splits)

lemma walkHistoryLoop_from_Suc:
  "walkHistoryLoop_body (Suc fuel) repo callback eq roots s seen results = Inr w \<Longrightarrow>
   walkHistoryLoop_from (Suc fuel) repo callback eq roots s seen results =
     (case w of
        Finished r \<Rightarrow> Inr r
      | Continue roots' s' seen' results' \<Rightarrow>
          walkHistoryLoop_from fuel repo callback eq roots' s' seen' results')"
  by simp

lemma pager_walk:
  "walkHistoryLoop_from fuel repo cb eq roots s seen results = Inr (Inr R) \<Longrightarrow> 0 \<le> n \<Longrightarrow>
   walkHistoryLoop_from fuel repo (makePager (Some cb)) eq roots (s, 0, n) seen results
     = Inr (Inr (take (length results + nat n) R))"
proof (induction fuel arbitrary: roots s seen results n)
  case 0
  then show ?case by simp
next
  case (Suc fuel)
  let ?P = "makePager (Some cb)"
  from walkHistoryLoop_from_extends [OF Suc.prems(1)]
  obtain ys where R: "R = results @ ys" by blast
  show ?case
  proof (cases "roots = []")
    case True
    with Suc.prems(1) have "R = results" by (simp add: walkHistoryLoop_body_empty)
    with True show ?thesis by (simp add: walkHistoryLoop_body_empty)
  next
    case ne: False
    show ?thesis
    proof (cases "walkHistoryLoop_pick (Suc fuel) repo eq roots seen")
      case (Inl a)
      with ne Suc.prems(1) show ?thesis by (simp add: walkHistoryLoop_body_abort)
    next
      case (Inr picked)
      show ?thesis
      proof (cases picked)
        case (Inl err)
        with ne Inr Suc.prems(1) show ?thesis by (simp add: walkHistoryLoop_body_pick_error)
      next
        case pk: (Inr triple)
        obtain "next" roots1 seen1 where t: "triple = (next, roots1, seen1)"
          by (cases triple) auto
        obtain a e s1 where cb: "cb s next = ((a, e), s1)"
          by (cases "cb s next") auto
        have p: "walkHistoryLoop_pick (Suc fuel) repo eq roots seen
                   = Inr (Inr (next, roots1, seen1))"
          using Inr pk t by simp
        show ?thesis
        proof (cases e)
          case (Some err)
          with cb have "cb s next = ((a, Some err), s1)" by simp
          from walkHistoryLoop_body_callback_error
            [where callback = cb and s = s and results = results, OF ne p this]
            Suc.prems(1)
          show ?thesis by simp
        next
          case None
          with cb have cb': "cb s next = ((a, None), s1)" by simp
          define W where "W = walkHistoryLoop_act repo eq next roots1 seen1 results a s1"
          have B: "walkHistoryLoop_body (Suc fuel) repo cb eq roots s seen results = Inr W"
            unfolding W_def
            by (rule walkHistoryLoop_body_act
                  [where callback = cb and s = s and results = results, OF ne p cb'])
          have walk: "(case W of
                Finished r \<Rightarrow> Inr r
              | Continue roots' s' seen' results' \<Rightarrow>
                  walkHistoryLoop_from fuel repo cb eq roots' s' seen' results') = Inr (Inr R)"
            using Suc.prems(1) unfolding walkHistoryLoop_from_Suc [OF B] .
          have Wres: "\<And>roots' s' seen' res. W = Continue roots' s' seen' res \<or> W = Finished (Inr res)
              \<Longrightarrow> res = (if bit a 1 then results @ [next] else results)"
            using walkHistoryLoop_act_results [of repo eq "next" roots1 seen1 results a s1]
            unfolding W_def by blast
          \<comment> \<open>the pager passes the action on with the state \<open>(s1, 0, m)\<close>\<close>
          have pass: "walkHistoryLoop_from (Suc fuel) repo ?P eq roots (s, 0, n) seen results
                = Inr (Inr (take (length results + nat n) R))"
            if pg: "?P (s, 0, n) next = ((a, None), (s1, 0, m))"
              and m: "0 \<le> m"
              and len: "length (if bit a 1 then results @ [next] else results) + nat m
                          = length results + nat n"
            for m
          proof -
            have B': "walkHistoryLoop_body (Suc fuel) repo ?P eq roots (s, 0, n) seen results
                = Inr (walkHistoryLoop_act repo eq next roots1 seen1 results a (s1, 0, m))"
              by (rule walkHistoryLoop_body_act
                    [where callback = ?P and s = "(s, 0, n)" and results = results, OF ne p pg])
            show ?thesis
            proof (cases W)
              case (Finished r)
              with walk have r: "r = Inr R" by simp
              with Finished Wres [of R] have "R = (if bit a 1 then results @ [next] else results)"
                by simp
              then have "take (length results + nat n) R = R" using len by (simp split: if_splits)
              moreover have "walkHistoryLoop_act repo eq next roots1 seen1 results a (s1, 0::int, m)
                  = Finished (Inr R)"
                using walkHistoryLoop_act_state [of repo eq "next" roots1 seen1 results a
                    "(s1, 0::int, m)" s1] Finished r
                unfolding W_def by simp
              ultimately show ?thesis unfolding walkHistoryLoop_from_Suc [OF B'] by simp
            next
              case (Continue roots2 s2 seen2 res2)
              then have s2: "s2 = s1"
                unfolding W_def by (rule walkHistoryLoop_act_continue_state)
              from Continue Wres [of roots2 s2 seen2 res2]
              have res2: "res2 = (if bit a 1 then results @ [next] else results)" by simp
              from walk Continue s2
              have "walkHistoryLoop_from fuel repo cb eq roots2 s1 seen2 res2 = Inr (Inr R)"
                by simp
              from Suc.IH [OF this m]
              have "walkHistoryLoop_from fuel repo ?P eq roots2 (s1, 0, m) seen2 res2
                  = Inr (Inr (take (length results + nat n) R))"
                using len res2 by simp
              moreover have "walkHistoryLoop_act repo eq next roots1 seen1 results a (s1, 0::int, m)
                  = Continue roots2 (s1, 0::int, m) seen2 res2"
                using walkHistoryLoop_act_state [of repo eq "next" roots1 seen1 results a
                    "(s1, 0::int, m)" s1] Continue
                unfolding W_def by simp
              ultimately show ?thesis unfolding walkHistoryLoop_from_Suc [OF B'] by simp
            qed
          qed
          show ?thesis
          proof (cases "bit a 1")
            case False
            from makePager_not_taken [where cb = cb and s = s and skip = 0 and count = n, OF cb' False] show ?thesis
              by (rule pass) (use Suc.prems(2) False in simp_all)
          next
            case taken: True
            consider "n = 0" | "n = 1" | "1 < n" using Suc.prems(2) by linarith
            then show ?thesis
            proof cases
              case 1
              from makePager_exhausted [where cb = cb and s = s, OF cb' taken]
              have pg: "?P (s, 0, n) next = ((HWStop, None), (s1, 0, 0))" using 1 by simp
              have B': "walkHistoryLoop_body (Suc fuel) repo ?P eq roots (s, 0, n) seen results
                  = Inr (Finished (Inr results))"
                using walkHistoryLoop_body_act
                    [where callback = ?P and s = "(s, 0, n)" and results = results, OF ne p pg]
                by (simp add: walkHistoryLoop_act_stop)
              show ?thesis unfolding walkHistoryLoop_from_Suc [OF B'] using R 1 by simp
            next
              case 2
              from makePager_count [where cb = cb and s = s and count = n, OF cb' taken] 2
              have pg: "?P (s, 0, n) next = ((a OR HWStop, None), (s1, 0, 0))" by simp
              have B': "walkHistoryLoop_body (Suc fuel) repo ?P eq roots (s, 0, n) seen results
                  = Inr (case W of
                           Finished r \<Rightarrow> Finished r
                         | Continue roots' s' seen' results' \<Rightarrow> Finished (Inr results'))"
                using walkHistoryLoop_body_act
                    [where callback = ?P and s = "(s, 0, n)" and results = results, OF ne p pg]
                  walkHistoryLoop_act_or_stop [of repo eq "next" roots1 seen1 results a
                    "(s1, 0::int, 0::int)" s1]
                unfolding W_def by simp
              show ?thesis
              proof (cases W)
                case (Finished r)
                with walk have r: "r = Inr R" by simp
                with Finished Wres [of R] taken have "R = results @ [next]" by simp
                then have "take (length results + nat n) R = R" using 2 by simp
                with Finished r show ?thesis unfolding walkHistoryLoop_from_Suc [OF B'] by simp
              next
                case (Continue roots2 s2 seen2 res2)
                from Continue Wres [of roots2 s2 seen2 res2] taken
                have res2: "res2 = results @ [next]" by simp
                from walk Continue
                have "walkHistoryLoop_from fuel repo cb eq roots2 s2 seen2 res2 = Inr (Inr R)"
                  by simp
                from walkHistoryLoop_from_extends [OF this]
                obtain zs where "R = res2 @ zs" by blast
                then have "take (length results + nat n) R = res2" using res2 2 by simp
                with Continue show ?thesis unfolding walkHistoryLoop_from_Suc [OF B'] by simp
              qed
            next
              case 3
              from makePager_count [where cb = cb and s = s and count = n, OF cb' taken] 3
              have "?P (s, 0, n) next = ((a, None), (s1, 0, n - 1))" by simp
              then show ?thesis
                by (rule pass) (use 3 taken in simp_all)
            qed
          qed
        qed
      qed
    qed
  qed
qed

lemma takes_pair: "takes (a, e) \<longleftrightarrow> e = None \<and> bit a 1"
  by (simp add: takes_def takes_zero_iff)

lemma makePager_feed:
  "0 \<le> k \<Longrightarrow> 0 \<le> n \<Longrightarrow> i < length cs \<Longrightarrow>
   feed (makePager (Some cb)) (s, k, n) cs ! i =
     (let r = feed cb s cs ! i;
          t = int (length (filter takes (take i (feed cb s cs))))
      in if \<not> takes r then r
         else if t < k then (fst r AND NOT HWTakeCommit, None)
         else if t < k + n then (if t = k + n - 1 then fst r OR HWStop else fst r, None)
         else (HWStop, None))"
proof (induction cs arbitrary: s k n i)
  case Nil
  then show ?case by simp
next
  case (Cons c cs)
  let ?P = "makePager (Some cb)"
  obtain a e s1 where cb: "cb s c = ((a, e), s1)" by (cases "cb s c") auto
  \<comment> \<open>the state of the pager after the call on \<open>c\<close>\<close>
  define k' where "k' = (if takes (a, e) \<and> k \<noteq> 0 then k - 1 else k)"
  define n' where "n' = (if takes (a, e) \<and> k = 0 \<and> n \<noteq> 0 then n - 1 else n)"
  define out where "out =
    (if \<not> takes (a, e) then (a, e)
     else if k \<noteq> 0 then (a AND NOT HWTakeCommit, None)
     else if n \<noteq> 0 then (if n = 1 then a OR HWStop else a, None)
     else (HWStop, None))"
  have step: "?P (s, k, n) c = (out, (s1, k', n'))"
  proof (cases e)
    case (Some err)
    with cb have "cb s c = ((a, Some err), s1)" by simp
    from makePager_error [where cb = cb and s = s, OF this, of k n] Some
    show ?thesis by (simp add: out_def k'_def n'_def takes_pair)
  next
    case None
    with cb have cb': "cb s c = ((a, None), s1)" by simp
    show ?thesis
    proof (cases "bit a 1")
      case False
      from makePager_not_taken [where cb = cb and s = s, OF cb' False, of k n] None False
      show ?thesis by (simp add: out_def k'_def n'_def takes_pair)
    next
      case True
      show ?thesis
      proof (cases "k = 0")
        case kz: False
        from makePager_skip [where cb = cb and s = s, OF cb' True kz, of n] None True kz
        show ?thesis by (simp add: out_def k'_def n'_def takes_pair)
      next
        case kz: True
        show ?thesis
        proof (cases "n = 0")
          case False
          from makePager_count [where cb = cb and s = s, OF cb' True False] None True kz False
          show ?thesis by (simp add: out_def k'_def n'_def takes_pair)
        next
          case nz: True
          from makePager_exhausted [where cb = cb and s = s, OF cb' True] None True kz nz
          show ?thesis by (simp add: out_def k'_def n'_def takes_pair)
        qed
      qed
    qed
  qed
  have k': "0 \<le> k'" and n': "0 \<le> n'"
    using Cons.prems(1,2) by (auto simp: k'_def n'_def)
  show ?case
  proof (cases i)
    case 0
    have "feed ?P (s, k, n) (c # cs) ! 0 = out" using step by simp
    moreover have "feed cb s (c # cs) ! 0 = (a, e)" using cb by simp
    ultimately show ?thesis
      using 0 Cons.prems(1,2) by (auto simp: out_def Let_def)
  next
    case (Suc j)
    then have j: "j < length cs" using Cons.prems(3) by simp
    let ?t' = "int (length (filter takes (take j (feed cb s1 cs))))"
    have t: "int (length (filter takes (take i (feed cb s (c # cs)))))
               = (if takes (a, e) then 1 else 0) + ?t'"
      using Suc cb by simp
    have nth: "feed cb s (c # cs) ! i = feed cb s1 cs ! j" using Suc cb by simp
    have "feed ?P (s, k, n) (c # cs) ! i = feed ?P (s1, k', n') cs ! j"
      using Suc step by simp
    also note Cons.IH [OF k' n' j, of s1]
    finally show ?thesis
      unfolding t nth using Cons.prems(1,2)
      by (auto simp: Let_def k'_def n'_def)
  qed
qed

text \<open>
  C8 (amended). For every callback \<open>cb\<close> (with any state of its own) and \<open>k, n \<ge> 0\<close>:
  \<^item> when the walk with \<open>cb\<close> returns the results \<open>R\<close>, the walk with \<open>makePager cb\<close> started
    with \<open>skip = 0\<close> and \<open>count = n\<close> returns the first \<open>n\<close> of them, \<open>min n (length R)\<close>
    results;
  \<^item> on any sequence of commits, the pager returns what \<open>cb\<close> returns for a commit that
    \<open>cb\<close> does not take; of the commits that \<open>cb\<close> takes it strips \<open>TakeCommit\<close> from
    exactly the first \<open>k\<close>, passes the next \<open>n\<close> on and sets \<open>Stop\<close> on the last of them,
    and answers \<open>Stop\<close> alone from then on;
  \<^item> with \<open>skip = 0\<close> and \<open>count = 0\<close> it answers \<open>Stop\<close> alone to the first commit that
    \<open>cb\<close> takes, and passes on unchanged the action of a commit that \<open>cb\<close> does not take;
  \<^item> a \<open>nil\<close> callback stands for \<open>nopCallback\<close>.
\<close>

theorem makePager_law:
  "(walkHistoryLoop fuel repo roots cb s eq = Inr (Inr R) \<and> 0 \<le> n \<longrightarrow>
      walkHistoryLoop fuel repo roots (makePager (Some cb)) (s, 0, n) eq
        = Inr (Inr (take (nat n) R))
      \<and> length (take (nat n) R) = min (nat n) (length R))
   \<and> (0 \<le> k \<and> 0 \<le> n \<and> i < length cs \<longrightarrow>
      feed (makePager (Some cb)) (s, k, n) cs ! i =
        (let r = feed cb s cs ! i;
             t = int (length (filter takes (take i (feed cb s cs))))
         in if \<not> takes r then r
            else if t < k then (fst r AND NOT HWTakeCommit, None)
            else if t < k + n then (if t = k + n - 1 then fst r OR HWStop else fst r, None)
            else (HWStop, None)))
   \<and> (cb s c = ((a, None), s') \<and> a AND HWTakeCommit \<noteq> 0 \<longrightarrow>
      makePager (Some cb) (s, 0, 0) c = ((HWStop, None), (s', 0, 0)))
   \<and> (cb s c = ((a, None), s') \<and> a AND HWTakeCommit = 0 \<longrightarrow>
      makePager (Some cb) (s, k, n) c = ((a, None), (s', k, n)))
   \<and> makePager None (s, k, n) c = makePager (Some nopCallback) (s, k, n) c"
proof (intro conjI impI)
  show "makePager None (s, k, n) c = makePager (Some nopCallback) (s, k, n) c"
    by (simp add: makePager_def)
next
  assume h: "walkHistoryLoop fuel repo roots cb s eq = Inr (Inr R) \<and> 0 \<le> n"
  then have "walkHistoryLoop_from fuel repo cb eq roots s {} [] = Inr (Inr R)" and "0 \<le> n"
    by (simp_all add: walkHistoryLoop_def)
  from pager_walk [OF this]
  show "walkHistoryLoop fuel repo roots (makePager (Some cb)) (s, 0, n) eq
        = Inr (Inr (take (nat n) R))"
    by (simp add: walkHistoryLoop_def)
  show "length (take (nat n) R) = min (nat n) (length R)" by simp
next
  assume "0 \<le> k \<and> 0 \<le> n \<and> i < length cs"
  then have "0 \<le> k" "0 \<le> n" "i < length cs" by simp_all
  then show "feed (makePager (Some cb)) (s, k, n) cs ! i =
        (let r = feed cb s cs ! i;
             t = int (length (filter takes (take i (feed cb s cs))))
         in if \<not> takes r then r
            else if t < k then (fst r AND NOT HWTakeCommit, None)
            else if t < k + n then (if t = k + n - 1 then fst r OR HWStop else fst r, None)
            else (HWStop, None))"
    by (rule makePager_feed)
next
  assume "cb s c = ((a, None), s') \<and> a AND HWTakeCommit \<noteq> 0"
  then have "cb s c = ((a, None), s')" "bit a 1" by (simp_all add: takes_zero_iff)
  then show "makePager (Some cb) (s, 0, 0) c = ((HWStop, None), (s', 0, 0))"
    by (rule makePager_exhausted [where cb = cb and s = s])
next
  assume "cb s c = ((a, None), s') \<and> a AND HWTakeCommit = 0"
  then have "cb s c = ((a, None), s')" "\<not> bit a 1" by (simp_all add: takes_zero_iff)
  then show "makePager (Some cb) (s, k, n) c = ((a, None), (s', k, n))"
    by (rule makePager_not_taken [where cb = cb and s = s])
qed

theorem makePager_law_witness:
  "walkHistoryLoop 10 repoA [cA] (makePager (Some nopCallback)) ((), 0, 2) nopComparator
     = Inr (Inr [cA, cP2])
   \<and> feed (makePager (Some nopCallback)) ((), 1, 1) [cA, cP2, cQ] ! 1
     = (HWTakeAndFollow OR HWStop, None)
   \<and> makePager (Some nopCallback) ((), 0, 0) cA = ((HWStop, None), ((), 0, 0))
   \<and> makePager (Some followOnly) ((), 0, 0) cA = ((HWFollowParents, None), ((), 0, 0))"
proof -
  have w: "walkHistoryLoop 10 repoA [cA] nopCallback () nopComparator = Inr (Inr [cA, cP2, cQ])
      \<and> (0::int) \<le> 2"
    by code_simp
  have i: "(0::int) \<le> 1 \<and> (0::int) \<le> 1 \<and> 1 < length [cA, cP2, cQ]" by simp
  have t: "nopCallback () cA = ((HWTakeAndFollow, None), ())
      \<and> HWTakeAndFollow AND HWTakeCommit \<noteq> 0"
    by code_simp
  have f: "followOnly () cA = ((HWFollowParents, None), ())
      \<and> HWFollowParents AND HWTakeCommit = 0"
    by code_simp
  have v: "(let r = feed nopCallback () [cA, cP2, cQ] ! 1;
                t = int (length (filter takes (take 1 (feed nopCallback () [cA, cP2, cQ]))))
            in if \<not> takes r then r
               else if t < 1 then (fst r AND NOT HWTakeCommit, None)
               else if t < 1 + 1 then (if t = 1 + 1 - 1 then fst r OR HWStop else fst r, None)
               else (HWStop, None)) = (HWTakeAndFollow OR HWStop, None)"
    by code_simp
  note law = makePager_law [where fuel = 10 and repo = repoA and roots = "[cA]" and s = "()"
      and eq = nopComparator and R = "[cA, cP2, cQ]" and cs = "[cA, cP2, cQ]" and i = 1
      and c = cA and s' = "()"]
  from law [where cb = nopCallback and n = 2 and k = 0 and a = HWTakeAndFollow] w
  have 1: "walkHistoryLoop 10 repoA [cA] (makePager (Some nopCallback)) ((), 0, 2) nopComparator
     = Inr (Inr (take (nat 2) [cA, cP2, cQ]))"
    by blast
  from law [where cb = nopCallback and n = 1 and k = 1 and a = HWTakeAndFollow] i v
  have 2: "feed (makePager (Some nopCallback)) ((), 1, 1) [cA, cP2, cQ] ! 1
     = (HWTakeAndFollow OR HWStop, None)"
    by simp
  from law [where cb = nopCallback and n = 0 and k = 0 and a = HWTakeAndFollow] t
  have 3: "makePager (Some nopCallback) ((), 0, 0) cA = ((HWStop, None), ((), 0, 0))"
    by blast
  from law [where cb = followOnly and n = 0 and k = 0 and a = HWFollowParents] f
  have 4: "makePager (Some followOnly) ((), 0, 0) cA = ((HWFollowParents, None), ((), 0, 0))"
    by blast
  from 1 2 3 4 show ?thesis by simp
qed

text \<open>
  C8 as stated fails: with a callback that takes no commit, the pager with \<open>skip = 0\<close> and
  \<open>count = 0\<close> does not stop. It returns the action of the callback, which has no \<open>Stop\<close>
  flag, and the walk from \<open>cA\<close> goes on to a second pass.
\<close>

theorem makePager_zero_count_goes_on:
  "makePager (Some followOnly) ((), 0, 0) cA = ((HWFollowParents, None), ((), 0, 0))
   \<and> \<not> 0 < (HWFollowParents AND HWStop)
   \<and> walkHistoryLoop_state 1 10 repoA (makePager (Some followOnly)) nopComparator [cA]
        ((), 0, 0) {} []
       = Inr (Continue [cP1, cP2] ((), 0, 0) {} [])"
  by code_simp

section \<open>The results of a walk are reachable from its start\<close>




lemma extractNewestCommit_loop_index:
  "extractNewestCommit_loop xs idx target targetIdx = (t, ti) \<Longrightarrow>
   ti = targetIdx \<or> (idx \<le> ti \<and> ti < idx + length xs)"
  by (induction xs arbitrary: idx target targetIdx) (fastforce split: if_splits)+




















end
